theory Spec2Isabelle
  imports Complex_Main
begin

section \<open>Layer-dependent importance sampling (AutoGL)\<close>

text \<open>
  The development embeds \<^verbatim>\<open>LayerDependentImportanceSampler\<close>
  (\<^verbatim>\<open>autogl/module/train/sampling/sampler/layer_dependent_importance_sampler.py\<close>)
  and \<^verbatim>\<open>random_splits_mask\<close> (\<^verbatim>\<open>autogl/datasets/utils/_general.py\<close>).

  Conventions of the embedding.
  \<^item> A \<^verbatim>\<open>LongTensor\<close> of node or edge indexes is a \<open>nat list\<close>: indexes are not
    negative (the degree computation of the constructor rejects a negative node index, and
    a negative target node would match no edge, like a target beyond the graph). The
    \<open>2 \<times> E\<close> edge-index tensor is a list of \<open>(source, target)\<close> columns, so row \<open>0\<close>
    is \<open>map fst\<close> and row \<open>1\<close> is \<open>map snd\<close>.
  \<^item> A floating-point tensor is a \<open>real list\<close>: arithmetic is exact, rounding is
    not modelled. The reciprocal of a degree, which the code tests for infinity, is a
    value of \<open>fval\<close>. The other tensor divisions are real divisions; a zero divisor
    would give an infinity or a NaN in the tensor library, and for a sampler built by
    the constructor the divisors are proved to be positive.
  \<^item> Exceptions are values of \<open>error\<close>; a function that can raise returns
    \<open>error + 'a\<close>. Where the class of an exception is decided by the installed
    tensor library and not by the source, it is a parameter.
  \<^item> The ambient random generator of numpy is a stream of naturals \<open>nat \<Rightarrow> nat\<close>
    that is threaded through the calls which draw from it.
\<close>

subsection \<open>Errors and tensor-library primitives\<close>

datatype error = TypeError | ValueError | RuntimeError | ZeroDivisionError | IndexError

type_synonym edge_index = "(nat \<times> nat) list"

type_synonym rng = "nat \<Rightarrow> nat"

text \<open>\<^verbatim>\<open>Tensor.unique()\<close> on a one-dimensional tensor: the distinct values, ascending.\<close>

definition unique :: "nat list \<Rightarrow> nat list" where
  "unique xs = sort (remdups xs)"

text \<open>\<^verbatim>\<open>torch.where(row == v)[0]\<close>: the positions holding \<open>v\<close>, ascending.\<close>

definition where_eq :: "nat list \<Rightarrow> nat \<Rightarrow> nat list" where
  "where_eq row v = filter (\<lambda>i. row ! i = v) [0..<length row]"

text \<open>\<^verbatim>\<open>torch.where(mask)[0]\<close>.\<close>

definition where_true :: "bool list \<Rightarrow> nat list" where
  "where_true msk = filter (\<lambda>i. msk ! i) [0..<length msk]"

text \<open>\<^verbatim>\<open>torch.cat\<close> of a Python list of tensors. An empty list is rejected; the class
  of the exception is the library's and differs between its releases, so it is the
  parameter \<open>empty_error\<close>.\<close>

definition cat :: "error \<Rightarrow> 'a list list \<Rightarrow> error + 'a list" where
  "cat empty_error ts = (if ts = [] then Inl empty_error else Inr (concat ts))"

text \<open>\<^verbatim>\<open>mask[indexes] = True\<close> on a boolean tensor, for indexes in range: the callers
  pass positions found by \<open>where_eq\<close> on a row of the same length, or check the range
  first (\<open>index_to_mask\<close>).\<close>

definition set_true :: "bool list \<Rightarrow> nat list \<Rightarrow> bool list" where
  "set_true msk ixs = fold (\<lambda>i m. m[i := True]) ixs msk"

text \<open>\<^verbatim>\<open>values[keys == k]\<close>: the entries of \<open>values\<close> at the positions where
  \<open>keys\<close> holds \<open>k\<close>.\<close>

definition select_eq :: "nat list \<Rightarrow> 'a list \<Rightarrow> nat \<Rightarrow> 'a list" where
  "select_eq keys vals k = map snd (filter (\<lambda>p. fst p = k) (zip keys vals))"

text \<open>\<^verbatim>\<open>tensor[indexes]\<close> (advanced indexing, a fresh tensor); an index past the end
  raises \<^verbatim>\<open>IndexError\<close>.\<close>

definition index_select :: "'a list \<Rightarrow> nat list \<Rightarrow> error + 'a list" where
  "index_select t ixs =
     (if \<exists>i \<in> set ixs. length t \<le> i then Inl IndexError else Inr (map (\<lambda>i. t ! i) ixs))"

text \<open>\<^verbatim>\<open>torch_geometric.utils.num_nodes.maybe_num_nodes\<close>: one more than the largest
  index, and \<open>0\<close> for an empty index tensor.\<close>

definition maybe_num_nodes :: "nat list \<Rightarrow> nat" where
  "maybe_num_nodes index = (if index = [] then 0 else Suc (fold max index 0))"

text \<open>\<^verbatim>\<open>torch_geometric.utils.degree(index)\<close>: a float tensor of length
  \<open>maybe_num_nodes index\<close> counting the occurrences of every node in \<open>index\<close>.\<close>

definition degree :: "nat list \<Rightarrow> real list" where
  "degree index = map (\<lambda>n. real (count_list index n)) [0..<maybe_num_nodes index]"

text \<open>\<^verbatim>\<open>torch_geometric.utils.add_remaining_self_loops(edge_index)[0]\<close>: the edges that
  are not self-loops, in order, followed by one self-loop \<open>(n, n)\<close> for every node
  \<open>n < N\<close>, where \<open>N\<close> is \<open>maybe_num_nodes\<close> of the whole tensor (\<open>node_count\<close>).\<close>

definition node_count :: "edge_index \<Rightarrow> nat" where
  "node_count edge_index = maybe_num_nodes (map fst edge_index @ map snd edge_index)"

definition add_remaining_self_loops :: "edge_index \<Rightarrow> edge_index" where
  "add_remaining_self_loops edge_index =
     (let N = node_count edge_index
      in filter (\<lambda>e. fst e \<noteq> snd e) edge_index @ map (\<lambda>n. (n, n)) [0..<N])"

subsection \<open>Edge weights\<close>

text \<open>A float produced by \<^verbatim>\<open>1.0 / d\<close> on a degree tensor: finite, or the infinity
  that division by a zero degree yields.\<close>

datatype fval = Finite real | Infinite

definition reciprocal :: "real \<Rightarrow> fval" where
  "reciprocal d = (if d = 0 then Infinite else Finite (1 / d))"

text \<open>\<^verbatim>\<open>temp_tensor[torch.isinf(temp_tensor)] = 0.0\<close>.\<close>

definition zero_inf :: "fval \<Rightarrow> real" where
  "zero_inf v = (case v of Infinite \<Rightarrow> 0 | Finite r \<Rightarrow> r)"

definition compute_edge_weights :: "edge_index \<Rightarrow> real list" where
  "compute_edge_weights all_edge_index_with_self_loops =
     (let out_degree = degree (map fst all_edge_index_with_self_loops);
          in_degree = degree (map snd all_edge_index_with_self_loops);
          temp0 = map (\<lambda>s. reciprocal (out_degree ! s)) (map fst all_edge_index_with_self_loops);
          temp1 = map (\<lambda>t. reciprocal (in_degree ! t)) (map snd all_edge_index_with_self_loops)
      in map2 (\<lambda>a b. zero_inf a * zero_inf b) temp0 temp1)"

record sampler =
  all_edge_index_with_self_loops :: edge_index
  all_edge_weights :: "real list"

text \<open>\<^verbatim>\<open>LayerDependentImportanceSampler.__init__\<close>.\<close>

definition init :: "edge_index \<Rightarrow> sampler" where
  "init all_edge_index =
     (let e = add_remaining_self_loops all_edge_index
      in \<lparr>all_edge_index_with_self_loops = e, all_edge_weights = compute_edge_weights e\<rparr>)"

subsection \<open>Candidate source nodes and their probabilities\<close>

text \<open>\<^verbatim>\<open>_Utility.get_candidate_source_nodes_probabilities\<close>. The quotient of the two
  \<^verbatim>\<open>.item()\<close> values is a division of Python floats, which raises
  \<^verbatim>\<open>ZeroDivisionError\<close> on a zero denominator; the comprehension evaluates it once for
  every unique source node.\<close>

definition get_candidate_source_nodes_probabilities ::
  "nat list \<Rightarrow> edge_index \<Rightarrow> real list \<Rightarrow> error + (nat list \<times> real list)" where
  "get_candidate_source_nodes_probabilities all_candidate_edge_indexes edges weights =
     (case index_select edges all_candidate_edge_indexes of
        Inl e \<Rightarrow> Inl e
      | Inr all_candidate_edges \<Rightarrow>
     (case index_select weights all_candidate_edge_indexes of
        Inl e \<Rightarrow> Inl e
      | Inr all_candidate_edges_weights \<Rightarrow>
     (let all_candidate_source_nodes_indexes = unique (map fst all_candidate_edges)
      in if all_candidate_source_nodes_indexes \<noteq> [] \<and> sum_list all_candidate_edges_weights = 0
         then Inl ZeroDivisionError
         else Inr (all_candidate_source_nodes_indexes,
                map (\<lambda>current_source_node_index.
                       sum_list (select_eq (map fst all_candidate_edges)
                                   all_candidate_edges_weights current_source_node_index)
                       / sum_list all_candidate_edges_weights)
                    all_candidate_source_nodes_indexes))))"

subsection \<open>Filtering the full edge set\<close>

text \<open>\<^verbatim>\<open>_Utility.filter_selected_edges_by_source_nodes_and_target_nodes\<close>;
  \<open>empty_error\<close> is what \<^verbatim>\<open>torch.cat\<close> raises for an empty list.\<close>

definition filter_selected_edges_by_source_nodes_and_target_nodes ::
  "error \<Rightarrow> edge_index \<Rightarrow> nat list \<Rightarrow> nat list \<Rightarrow> error + nat list" where
  "filter_selected_edges_by_source_nodes_and_target_nodes empty_error all_edges_with_self_loops
       selected_source_node_indexes selected_target_node_indexes =
     (case cat empty_error (map (where_eq (map fst all_edges_with_self_loops))
                 (unique selected_source_node_indexes)) of
        Inl e \<Rightarrow> Inl e
      | Inr src_positions \<Rightarrow>
     (let selected_edges_mask_for_source_nodes =
            set_true (replicate (length all_edges_with_self_loops) False) (unique src_positions)
      in case cat empty_error (map (where_eq (map snd all_edges_with_self_loops))
                    (unique selected_target_node_indexes)) of
        Inl e \<Rightarrow> Inl e
      | Inr tgt_positions \<Rightarrow>
     (let selected_edges_mask_for_target_nodes =
            set_true (replicate (length all_edges_with_self_loops) False) tgt_positions
      in Inr (where_true (map2 (\<and>) selected_edges_mask_for_source_nodes
                                  selected_edges_mask_for_target_nodes)))))"

subsection \<open>The random draw\<close>

text \<open>\<^verbatim>\<open>np.random.choice(np.arange(n), sz, p=p)\<close>: \<open>sz\<close> draws with replacement
  from \<open>{0..<n}\<close>. numpy rejects with \<^verbatim>\<open>ValueError\<close> a negative size, an empty population
  when samples are requested, and a \<open>p\<close> that has the wrong length, a negative entry or a
  sum different from one. The draws themselves are read off the random stream, each
  reduced into the population; the stream is advanced past them.\<close>

definition choice :: "rng \<Rightarrow> nat \<Rightarrow> int \<Rightarrow> real list \<Rightarrow> error + (nat list \<times> rng)" where
  "choice g n sz p =
     (if sz < 0 \<or> (n = 0 \<and> sz \<noteq> 0) \<or> length p \<noteq> n \<or> (\<exists>x \<in> set p. x < 0)
         \<or> sum_list p \<noteq> 1
      then Inl ValueError
      else Inr (map (\<lambda>k. g k mod n) [0..<nat sz], \<lambda>k. g (k + nat sz)))"

subsection \<open>Sampling one layer\<close>

text \<open>The methods run in a state made of the object, the ambient random generator and the
  installed tensor library. Of the library only two exception classes matter, which the
  source does not fix and which differ between releases of torch: the one raised by
  \<^verbatim>\<open>torch.cat\<close> on an empty list and the one raised by \<^verbatim>\<open>.item()\<close> on a tensor that
  does not hold exactly one element.\<close>

record state =
  self :: sampler
  np_random :: rng
  torch_cat_error :: error
  torch_item_error :: error

text \<open>The values that \<^verbatim>\<open>__sample_layer\<close> assigns to its local variables.
  \<open>non_normalized_selected_edges_weight\<close> is the tensor as it is assigned: the
  normalisation then rewrites that tensor in place and returns it.\<close>

record layer_locals =
  all_candidate_edge_indexes :: "nat list"
  all_candidate_source_nodes_indexes :: "nat list"
  all_candidate_source_nodes_probabilities :: "real list"
  selected_source_node_indexes :: "nat list"
  selected_edges_indexes :: "nat list"
  non_normalized_selected_edges_weight :: "real list"
  selected_edge_index :: edge_index
  normalized_selected_edges_weight :: "real list"

text \<open>A list comprehension whose elements may raise: the first exception wins.\<close>

fun collect :: "(error + 'a) list \<Rightarrow> error + 'a list" where
  "collect [] = Inr []"
| "collect (x # xs) =
     (case x of Inl e \<Rightarrow> Inl e
      | Inr v \<Rightarrow> (case collect xs of Inl e \<Rightarrow> Inl e | Inr vs \<Rightarrow> Inr (v # vs)))"

text \<open>\<^verbatim>\<open>probabilities[source_nodes == s].item()\<close>: \<^verbatim>\<open>.item()\<close> needs exactly one
  element; the class of the exception it raises otherwise is the library's, the parameter
  \<open>item_error\<close>.\<close>

definition source_probability ::
  "error \<Rightarrow> nat list \<Rightarrow> real list \<Rightarrow> nat \<Rightarrow> error + real" where
  "source_probability item_error source_nodes probabilities s =
     (case select_eq source_nodes probabilities s of [p] \<Rightarrow> Inr p | _ \<Rightarrow> Inl item_error)"

text \<open>One iteration of the loop of \<^verbatim>\<open>__normalize_edges_weight_by_target_nodes\<close>: the
  weights of the edges into \<open>current_target_node_index\<close> are divided by their sum.\<close>

definition normalize_step :: "edge_index \<Rightarrow> nat \<Rightarrow> real list \<Rightarrow> real list" where
  "normalize_step edge_index current_target_node_index edge_weight =
     (let total = sum_list (select_eq (map snd edge_index) edge_weight current_target_node_index)
      in map2 (\<lambda>e x. if snd e = current_target_node_index then x / total else x)
           edge_index edge_weight)"

definition normalize_edges_weight_by_target_nodes ::
  "edge_index \<Rightarrow> real list \<Rightarrow> error + real list" where
  "normalize_edges_weight_by_target_nodes edge_index edge_weight =
     (if length edge_index \<noteq> length edge_weight then Inl ValueError
      else Inr (fold (normalize_step edge_index) (unique (map snd edge_index)) edge_weight))"

text \<open>The first statement of \<^verbatim>\<open>__sample_layer\<close>: the indexes of the edges whose
  target is one of the target nodes.\<close>

definition candidate_edge_indexes ::
  "error \<Rightarrow> edge_index \<Rightarrow> nat list \<Rightarrow> error + nat list" where
  "candidate_edge_indexes empty_error edges target_nodes_indexes =
     (case cat empty_error (map (where_eq (map snd edges)) (unique target_nodes_indexes)) of
        Inl e \<Rightarrow> Inl e
      | Inr positions \<Rightarrow> Inr (unique positions))"

text \<open>The \<^verbatim>\<open>if\<close> under \<^verbatim>\<open>""" Sampling """\<close> in \<^verbatim>\<open>__sample_layer\<close>.\<close>

definition select_source_nodes ::
  "nat list \<Rightarrow> real list \<Rightarrow> int \<Rightarrow> rng \<Rightarrow> error + (nat list \<times> rng)" where
  "select_source_nodes source_nodes probabilities sampled_node_size_budget g =
     (if sampled_node_size_budget < int (length source_nodes)
      then (case choice g (length source_nodes) sampled_node_size_budget probabilities of
              Inl e \<Rightarrow> Inl e
            | Inr (draws, g') \<Rightarrow>
                Inr (unique (map (\<lambda>i. source_nodes ! i) (unique (unique draws))), g'))
      else Inr (source_nodes, g))"

definition sample_layer_locals ::
  "state \<Rightarrow> nat list \<Rightarrow> int \<Rightarrow> (error + layer_locals) \<times> state" where
  "sample_layer_locals st target_nodes_indexes sampled_node_size_budget =
     (let edges = all_edge_index_with_self_loops (self st);
          weights = all_edge_weights (self st)
      in case candidate_edge_indexes (torch_cat_error st) edges target_nodes_indexes of
        Inl e \<Rightarrow> (Inl e, st)
      | Inr cand \<Rightarrow>
     (case get_candidate_source_nodes_probabilities cand edges weights of
        Inl e \<Rightarrow> (Inl e, st)
      | Inr (source_nodes, probabilities) \<Rightarrow>
     (case select_source_nodes source_nodes probabilities sampled_node_size_budget
             (np_random st) of
        Inl e \<Rightarrow> (Inl e, st)
      | Inr (selected, g') \<Rightarrow>
     (let st' = st\<lparr>np_random := g'\<rparr>
      in case filter_selected_edges_by_source_nodes_and_target_nodes (torch_cat_error st) edges
                selected target_nodes_indexes of
        Inl e \<Rightarrow> (Inl e, st')
      | Inr filtered \<Rightarrow>
     (let selected_edges = unique filtered
      in case index_select weights selected_edges of
        Inl e \<Rightarrow> (Inl e, st')
      | Inr selected_weights \<Rightarrow>
     (case index_select edges selected_edges of
        Inl e \<Rightarrow> (Inl e, st')
      | Inr sub_edges \<Rightarrow>
     (case collect (map (source_probability (torch_item_error st) source_nodes probabilities)
                    (map fst sub_edges)) of
        Inl e \<Rightarrow> (Inl e, st')
      | Inr ps \<Rightarrow>
     (let raw = map2 (\<lambda>w p. w / (real (length selected) * p)) selected_weights ps
      in case normalize_edges_weight_by_target_nodes sub_edges raw of
        Inl e \<Rightarrow> (Inl e, st')
      | Inr normalized \<Rightarrow>
          (Inr \<lparr>all_candidate_edge_indexes = cand,
                all_candidate_source_nodes_indexes = source_nodes,
                all_candidate_source_nodes_probabilities = probabilities,
                selected_source_node_indexes = selected,
                selected_edges_indexes = selected_edges,
                non_normalized_selected_edges_weight = raw,
                selected_edge_index = sub_edges,
                normalized_selected_edges_weight = normalized\<rparr>, st')))))))))"

type_synonym layer_result = "edge_index \<times> real list \<times> nat list \<times> nat list"

text \<open>\<^verbatim>\<open>__sample_layer\<close> returns four of its locals.\<close>

definition sample_layer :: "state \<Rightarrow> nat list \<Rightarrow> int \<Rightarrow> (error + layer_result) \<times> state" where
  "sample_layer st target_nodes_indexes sampled_node_size_budget =
     (case sample_layer_locals st target_nodes_indexes sampled_node_size_budget of
        (Inl e, st') \<Rightarrow> (Inl e, st')
      | (Inr l, st') \<Rightarrow>
          (Inr (selected_edge_index l, normalized_selected_edges_weight l,
                selected_source_node_indexes l, selected_edges_indexes l), st'))"

subsection \<open>Sampling all layers\<close>

text \<open>A Python tuple of tensors is a sequence of tagged values, so that its arity is a
  property of the value.\<close>

datatype tensor = EdgeIndexT edge_index | FloatT "real list" | LongT "nat list"

type_synonym py_tuple = "tensor list"

text \<open>The \<^verbatim>\<open>for\<close> loop of \<^verbatim>\<open>sample\<close> over the reversed budgets; \<open>layers\<close> is the
  accumulator the loop appends to.\<close>

fun sample_loop ::
  "state \<Rightarrow> nat list \<Rightarrow> int list \<Rightarrow> py_tuple list \<Rightarrow> (error + py_tuple list) \<times> state" where
  "sample_loop st upper_layer_sampled_node_indexes [] layers = (Inr layers, st)"
| "sample_loop st upper_layer_sampled_node_indexes (current_sampled_node_size_budget # rest) layers =
     (case sample_layer st upper_layer_sampled_node_indexes current_sampled_node_size_budget of
        (Inl e, st') \<Rightarrow> (Inl e, st')
      | (Inr (current_layer_edge_index, current_layer_edge_weight, selected, _), st') \<Rightarrow>
          sample_loop st' selected rest
            (layers @ [[EdgeIndexT current_layer_edge_index, FloatT current_layer_edge_weight]]))"

text \<open>\<^verbatim>\<open>sample\<close>. Its two \<^verbatim>\<open>TypeError\<close> checks are discharged by the types of the
  arguments.\<close>

definition sample :: "state \<Rightarrow> nat list \<Rightarrow> int list \<Rightarrow> (error + py_tuple list) \<times> state" where
  "sample st top_layer_target_nodes_indexes sampling_node_size_budgets =
     (if length sampling_node_size_budgets = 0 then (Inl ValueError, st)
      else case sample_loop st top_layer_target_nodes_indexes (rev sampling_node_size_budgets) [] of
             (Inl e, st') \<Rightarrow> (Inl e, st')
           | (Inr layers, st') \<Rightarrow> (Inr (rev layers), st'))"

section \<open>Random train/validation/test masks\<close>

text \<open>Python's \<^verbatim>\<open>int(x)\<close> on a float truncates towards zero.\<close>

definition py_int :: "real \<Rightarrow> int" where
  "py_int x = (if 0 \<le> x then \<lfloor>x\<rfloor> else \<lceil>x\<rceil>)"

text \<open>A slice bound as Python normalises it: a negative bound counts from the end, and
  the result is clamped to \<open>[0, len]\<close>.\<close>

definition slice_bound :: "nat \<Rightarrow> int \<Rightarrow> nat" where
  "slice_bound len i = (if i < 0 then nat (max 0 (i + int len)) else min (nat i) len)"

text \<open>\<^verbatim>\<open>xs[lo:hi]\<close>; \<open>None\<close> is an omitted bound.\<close>

definition py_slice :: "'a list \<Rightarrow> int option \<Rightarrow> int option \<Rightarrow> 'a list" where
  "py_slice xs lo hi =
     (let l = (case lo of None \<Rightarrow> 0 | Some i \<Rightarrow> slice_bound (length xs) i);
          h = (case hi of None \<Rightarrow> length xs | Some i \<Rightarrow> slice_bound (length xs) i)
      in take (h - l) (drop l xs))"

text \<open>\<^verbatim>\<open>index_to_mask\<close>.\<close>

definition index_to_mask :: "nat list \<Rightarrow> nat \<Rightarrow> error + bool list" where
  "index_to_mask index sz =
     (if \<exists>i \<in> set index. sz \<le> i then Inl IndexError
      else Inr (set_true (replicate sz False) index))"

text \<open>The part of \<^verbatim>\<open>__random_split_masks\<close> after the permutation is drawn, as a function of
  the two cut points \<^verbatim>\<open>int(num_nodes * train_ratio)\<close> and
  \<^verbatim>\<open>int(num_nodes * (train_ratio + val_ratio))\<close>.\<close>

definition split_masks_at ::
  "nat list \<Rightarrow> int \<Rightarrow> int \<Rightarrow> nat \<Rightarrow> error + (bool list \<times> bool list \<times> bool list)" where
  "split_masks_at perm train_end val_end num_nodes =
     (let train_index = py_slice perm None (Some train_end);
          val_index = py_slice perm (Some train_end) (Some val_end);
          test_index = py_slice perm (Some val_end) None
      in case index_to_mask train_index num_nodes of
           Inl e \<Rightarrow> Inl e
         | Inr train_mask \<Rightarrow>
        (case index_to_mask val_index num_nodes of
           Inl e \<Rightarrow> Inl e
         | Inr val_mask \<Rightarrow>
        (case index_to_mask test_index num_nodes of
           Inl e \<Rightarrow> Inl e
         | Inr test_mask \<Rightarrow> Inr (train_mask, val_mask, test_mask))))"

text \<open>\<^verbatim>\<open>__random_split_masks\<close>. The generator state is saved before and restored after
  the call, and reseeded when a seed is given, so \<^verbatim>\<open>torch.randperm\<close> is a function
  \<open>randperm\<close> of the node count. The ratios are exact reals: the rounding of the two
  float products is not modelled.\<close>

definition random_split_masks ::
  "(nat \<Rightarrow> nat list) \<Rightarrow> real \<Rightarrow> real \<Rightarrow> nat \<Rightarrow> error + (bool list \<times> bool list \<times> bool list)" where
  "random_split_masks randperm train_ratio val_ratio num_nodes =
     split_masks_at (randperm num_nodes)
       (py_int (real num_nodes * train_ratio))
       (py_int (real num_nodes * (train_ratio + val_ratio))) num_nodes"

text \<open>What a node table stores under a key: a feature tensor, of which only the number of
  rows matters here, or a boolean mask.\<close>

datatype node_tensor = Feature nat | Mask "bool list"

definition size0 :: "node_tensor \<Rightarrow> nat" where
  "size0 t = (case t of Feature n \<Rightarrow> n | Mask m \<Rightarrow> length m)"

text \<open>The node data of a graph is a dictionary in insertion order. The graphs have one
  node type, so the loop over the node types runs once per graph, and a dataset is the
  list of the node data of its graphs.\<close>

type_synonym node_table = "(string \<times> node_tensor) list"

fun dict_set :: "node_table \<Rightarrow> string \<Rightarrow> node_tensor \<Rightarrow> node_table" where
  "dict_set [] k v = [(k, v)]"
| "dict_set ((k', v') # d) k v = (if k' = k then (k, v) # d else (k', v') # dict_set d k v)"

text \<open>The body of the loop of \<^verbatim>\<open>random_splits_mask\<close> for one graph.\<close>

definition split_graph ::
  "(nat \<Rightarrow> nat list) \<Rightarrow> real \<Rightarrow> real \<Rightarrow> node_table \<Rightarrow> error + node_table" where
  "split_graph randperm train_ratio val_ratio nodes =
     (case nodes of
        [] \<Rightarrow> Inr nodes
      | (first_key, first_tensor) # _ \<Rightarrow>
          (case random_split_masks randperm train_ratio val_ratio (size0 first_tensor) of
             Inl e \<Rightarrow> Inl e
           | Inr (train_mask, val_mask, test_mask) \<Rightarrow>
               Inr (dict_set (dict_set (dict_set nodes ''train_mask'' (Mask train_mask))
                      ''val_mask'' (Mask val_mask)) ''test_mask'' (Mask test_mask))))"

definition random_splits_mask ::
  "(nat \<Rightarrow> nat list) \<Rightarrow> node_table list \<Rightarrow> real \<Rightarrow> real \<Rightarrow> error + node_table list" where
  "random_splits_mask randperm dataset train_ratio val_ratio =
     (if \<not> train_ratio + val_ratio \<le> 1 then Inl ValueError
      else collect (map (split_graph randperm train_ratio val_ratio) dataset))"

section \<open>The quantities named by the specification\<close>

text \<open>The specification describes the sampler through the following quantities; the
  theorems below compare what the code computes with them.\<close>

text \<open>CandidateSet: the indexes of the edges whose target endpoint lies in the current
  target-node set.\<close>

definition spec_candidate_edges :: "edge_index \<Rightarrow> nat list \<Rightarrow> nat list" where
  "spec_candidate_edges edges targets =
     filter (\<lambda>i. snd (edges ! i) \<in> set targets) [0..<length edges]"

text \<open>\<open>p(s)\<close>: the weight of the candidate edges with source \<open>s\<close> over the weight of all
  candidate edges.\<close>

definition spec_probability :: "edge_index \<Rightarrow> real list \<Rightarrow> nat list \<Rightarrow> nat \<Rightarrow> real" where
  "spec_probability edges weights cand s =
     (\<Sum>i\<leftarrow>filter (\<lambda>i. fst (edges ! i) = s) cand. weights ! i) / (\<Sum>i\<leftarrow>cand. weights ! i)"

text \<open>\<open>raw(e) = w(e) / (|selected source set| \<cdot> p(src(e)))\<close> for the edge with index \<open>i\<close>.\<close>

definition spec_raw_weight ::
  "edge_index \<Rightarrow> real list \<Rightarrow> nat list \<Rightarrow> nat list \<Rightarrow> nat \<Rightarrow> real" where
  "spec_raw_weight edges weights cand selected i =
     weights ! i / (real (card (set selected)) * spec_probability edges weights cand (fst (edges ! i)))"

text \<open>The edges of the full edge set with source among the selected source nodes and
  target among the target nodes.\<close>

definition spec_selected_edges :: "edge_index \<Rightarrow> nat list \<Rightarrow> nat list \<Rightarrow> nat set" where
  "spec_selected_edges edges selected targets =
     {i. i < length edges \<and> fst (edges ! i) \<in> set selected \<and> snd (edges ! i) \<in> set targets}"

text \<open>Three masks over \<open>n\<close> nodes that put every node in exactly one of them.\<close>

definition spec_partition :: "nat \<Rightarrow> bool list \<Rightarrow> bool list \<Rightarrow> bool list \<Rightarrow> bool" where
  "spec_partition n train val test \<longleftrightarrow>
     length train = n \<and> length val = n \<and> length test = n \<and>
     list_all (\<lambda>i. (train ! i \<and> \<not> val ! i \<and> \<not> test ! i)
                  \<or> (\<not> train ! i \<and> val ! i \<and> \<not> test ! i)
                  \<or> (\<not> train ! i \<and> \<not> val ! i \<and> test ! i)) [0..<n]"

section \<open>Properties of the tensor primitives\<close>

lemma set_unique: "set (unique xs) = set xs"
  by (simp add: unique_def)

lemma distinct_unique: "distinct (unique xs)"
  by (simp add: unique_def)

lemma sorted_unique: "sorted (unique xs)"
  by (simp add: unique_def)

lemma unique_eq_Nil: "unique xs = [] \<longleftrightarrow> xs = []"
  by (metis set_unique set_empty)

lemma unique_sorted_distinct: "sorted xs \<Longrightarrow> distinct xs \<Longrightarrow> unique xs = xs"
  by (simp add: unique_def sorted_sort_id)

lemma unique_unique: "unique (unique xs) = unique xs"
  by (simp add: unique_sorted_distinct sorted_unique distinct_unique)

lemma unique_eq_filter:
  "set xs = {i. i < n \<and> P i} \<Longrightarrow> unique xs = filter P [0..<n]"
proof -
  assume a: "set xs = {i. i < n \<and> P i}"
  have "sorted (filter P [0..<n])" by (simp add: sorted_wrt_filter)
  moreover have "distinct (filter P [0..<n])" by simp
  moreover have "set (filter P [0..<n]) = set (unique xs)" using a by (auto simp: set_unique)
  ultimately show ?thesis
    using sorted_distinct_set_unique[OF sorted_unique distinct_unique, of "filter P [0..<n]" xs]
    by simp
qed


lemma set_where_eq: "set (where_eq row v) = {i. i < length row \<and> row ! i = v}"
  by (auto simp: where_eq_def)

lemma cat_Inr: "ts \<noteq> [] \<Longrightarrow> cat err ts = Inr (concat ts)"
  by (simp add: cat_def)

lemma cat_Nil: "cat err [] = Inl err"
  by (simp add: cat_def)

lemma length_set_true: "length (set_true m ixs) = length m"
  unfolding set_true_def by (induction ixs arbitrary: m) auto

lemma nth_set_true:
  "j < length m \<Longrightarrow> set_true m ixs ! j = (m ! j \<or> j \<in> set ixs)"
  unfolding set_true_def
proof (induction ixs arbitrary: m)
  case Nil
  then show ?case by simp
next
  case (Cons i ixs)
  have "fold (\<lambda>i m. m[i := True]) (i # ixs) m ! j
        = (m[i := True] ! j \<or> j \<in> set ixs)"
    using Cons.IH[of "m[i := True]"] Cons.prems by simp
  moreover have "m[i := True] ! j = (m ! j \<or> j = i)"
    using Cons.prems by (cases "i = j") auto
  ultimately show ?case by auto
qed

lemma index_select_Inr:
  "\<forall>i \<in> set ixs. i < length t \<Longrightarrow> index_select t ixs = Inr (map (\<lambda>i. t ! i) ixs)"
  by (auto simp: index_select_def)

lemma fold_max_ge: "x \<in> set xs \<Longrightarrow> x \<le> fold max xs (a::nat)"
proof (induction xs arbitrary: a)
  case Nil
  then show ?case by simp
next
  case (Cons y ys)
  have mono: "\<And>b. b \<le> fold max ys b"
  proof -
    fix b show "b \<le> fold max ys b"
      by (induction ys arbitrary: b) (auto intro: order_trans[OF max.cobounded2])
  qed
  show ?case
  proof (cases "x = y")
    case True
    then show ?thesis using mono[of "max y a"] by simp
  next
    case False
    then show ?thesis using Cons by simp
  qed
qed

lemma lt_maybe_num_nodes: "x \<in> set index \<Longrightarrow> x < maybe_num_nodes index"
  using fold_max_ge[of x index 0] by (auto simp: maybe_num_nodes_def)

lemma length_degree: "length (degree index) = maybe_num_nodes index"
  by (simp add: degree_def)

lemma nth_degree:
  "n < maybe_num_nodes index \<Longrightarrow> degree index ! n = real (count_list index n)"
  by (simp add: degree_def)

lemma count_list_pos: "x \<in> set xs \<Longrightarrow> 0 < count_list xs x"
  using count_list_0_iff[of xs x] by simp

subsection \<open>Degrees and edge weights\<close>

lemma zero_inf_reciprocal: "zero_inf (reciprocal d) = (if d = 0 then 0 else 1 / d)"
  by (simp add: zero_inf_def reciprocal_def)

lemma length_compute_edge_weights: "length (compute_edge_weights es) = length es"
  by (simp add: compute_edge_weights_def Let_def)

lemma nth_compute_edge_weights:
  assumes "i < length es"
  shows "compute_edge_weights es ! i
         = (1 / real (count_list (map fst es) (fst (es ! i))))
           * (1 / real (count_list (map snd es) (snd (es ! i))))"
proof -
  have s: "fst (es ! i) \<in> set (map fst es)" and t: "snd (es ! i) \<in> set (map snd es)"
    using assms by auto
  have ds: "degree (map fst es) ! fst (es ! i) = real (count_list (map fst es) (fst (es ! i)))"
    using s by (simp add: nth_degree lt_maybe_num_nodes)
  have dt: "degree (map snd es) ! snd (es ! i) = real (count_list (map snd es) (snd (es ! i)))"
    using t by (simp add: nth_degree lt_maybe_num_nodes)
  have "compute_edge_weights es ! i
        = zero_inf (reciprocal (degree (map fst es) ! fst (es ! i)))
          * zero_inf (reciprocal (degree (map snd es) ! snd (es ! i)))"
    using assms by (simp add: compute_edge_weights_def Let_def)
  then show ?thesis
    by (simp add: ds dt zero_inf_reciprocal)
qed

lemma compute_edge_weights_pos:
  assumes "i < length es"
  shows "0 < compute_edge_weights es ! i"
proof -
  have "0 < count_list (map fst es) (fst (es ! i))" "0 < count_list (map snd es) (snd (es ! i))"
    using assms by (auto intro!: count_list_pos)
  then show ?thesis
    by (simp add: nth_compute_edge_weights[OF assms])
qed

lemma self_loop_in_augmented:
  "n < node_count es \<Longrightarrow> (n, n) \<in> set (add_remaining_self_loops es)"
  by (auto simp: add_remaining_self_loops_def node_count_def Let_def)

lemma augmented_endpoints:
  assumes "e \<in> set (add_remaining_self_loops es)"
  shows "fst e < node_count es \<and> snd e < node_count es"
proof -
  from assms consider "e \<in> set es" | n where "n < node_count es" "e = (n, n)"
    by (auto simp: add_remaining_self_loops_def node_count_def Let_def)
  then show ?thesis
  proof cases
    case 1
    then have "fst e \<in> set (map fst es @ map snd es)" "snd e \<in> set (map fst es @ map snd es)"
      by auto
    then show ?thesis unfolding node_count_def by (blast intro: lt_maybe_num_nodes)
  next
    case 2
    then show ?thesis by simp
  qed
qed

lemma maybe_num_nodes_least:
  assumes "\<forall>x \<in> set index. x < m" "index \<noteq> []"
  shows "maybe_num_nodes index \<le> m"
proof -
  have "\<And>a. a < m \<Longrightarrow> \<forall>x \<in> set xs. x < m \<Longrightarrow> fold max xs a < m" for xs
    by (induction xs) auto
  then show ?thesis using assms
    by (cases m) (auto simp: maybe_num_nodes_def Suc_le_eq)
qed

lemma node_count_augmented: "node_count (add_remaining_self_loops es) = node_count es"
proof (cases "node_count es = 0")
  case True
  then have "es = []" by (auto simp: node_count_def maybe_num_nodes_def split: if_splits)
  then show ?thesis by (simp add: add_remaining_self_loops_def node_count_def maybe_num_nodes_def)
next
  case False
  let ?a = "add_remaining_self_loops es"
  have ne: "?a \<noteq> []" using self_loop_in_augmented[of 0 es] False by auto
  have "\<forall>x \<in> set (map fst ?a @ map snd ?a). x < node_count es"
    using augmented_endpoints[of _ es] by auto
  then have le: "node_count ?a \<le> node_count es"
    unfolding node_count_def[of ?a] using ne by (intro maybe_num_nodes_least) auto
  have "(node_count es - 1, node_count es - 1) \<in> set ?a"
    using False by (intro self_loop_in_augmented) simp
  then have "node_count es - 1 \<in> set (map fst ?a @ map snd ?a)" by force
  then have "node_count es - 1 < node_count ?a"
    unfolding node_count_def[of ?a] by (rule lt_maybe_num_nodes)
  then show ?thesis using le by simp
qed

subsection \<open>Closed forms of the edge selections\<close>

lemma candidate_edge_indexes_eq:
  "candidate_edge_indexes err es ts =
     (if ts = [] then Inl err
      else Inr (filter (\<lambda>i. snd (es ! i) \<in> set ts) [0..<length es]))"
proof (cases "ts = []")
  case True
  then show ?thesis by (simp add: candidate_edge_indexes_def unique_def cat_def)
next
  case False
  then have ne: "map (where_eq (map snd es)) (unique ts) \<noteq> []"
    by (simp add: unique_eq_Nil)
  have "set (concat (map (where_eq (map snd es)) (unique ts)))
        = {i. i < length es \<and> snd (es ! i) \<in> set ts}"
    by (auto simp: set_where_eq set_unique)
  then have "unique (concat (map (where_eq (map snd es)) (unique ts)))
             = filter (\<lambda>i. snd (es ! i) \<in> set ts) [0..<length es]"
    by (rule unique_eq_filter)
  then show ?thesis using False ne
    by (simp add: candidate_edge_indexes_def cat_Inr)
qed

lemma where_true_eq: "where_true m = filter (\<lambda>i. m ! i) [0..<length m]"
  by (simp add: where_true_def)

lemma filter_selected_eq:
  "filter_selected_edges_by_source_nodes_and_target_nodes err es sel ts =
     (if sel = [] \<or> ts = [] then Inl err
      else Inr (filter (\<lambda>i. fst (es ! i) \<in> set sel \<and> snd (es ! i) \<in> set ts) [0..<length es]))"
proof (cases "sel = [] \<or> ts = []")
  case True
  then show ?thesis
    by (auto simp: filter_selected_edges_by_source_nodes_and_target_nodes_def unique_def cat_def
             split: sum.splits)
next
  case False
  let ?n = "length es"
  let ?sp = "concat (map (where_eq (map fst es)) (unique sel))"
  let ?tp = "concat (map (where_eq (map snd es)) (unique ts))"
  let ?m1 = "set_true (replicate ?n False) (unique ?sp)"
  let ?m2 = "set_true (replicate ?n False) ?tp"
  have c1: "cat err (map (where_eq (map fst es)) (unique sel)) = Inr ?sp"
    using False by (simp add: cat_Inr unique_eq_Nil)
  have c2: "cat err (map (where_eq (map snd es)) (unique ts)) = Inr ?tp"
    using False by (simp add: cat_Inr unique_eq_Nil)
  have m1: "?m1 ! i = (fst (es ! i) \<in> set sel)" if "i < ?n" for i
    using that by (auto simp: nth_set_true set_unique set_where_eq)
  have m2: "?m2 ! i = (snd (es ! i) \<in> set ts)" if "i < ?n" for i
    using that by (auto simp: nth_set_true set_unique set_where_eq)
  have len: "length (map2 (\<and>) ?m1 ?m2) = ?n"
    by (simp add: length_set_true)
  have "where_true (map2 (\<and>) ?m1 ?m2)
        = filter (\<lambda>i. fst (es ! i) \<in> set sel \<and> snd (es ! i) \<in> set ts) [0..<?n]"
    unfolding where_true_eq len
    by (rule filter_cong) (auto simp: length_set_true m1 m2)
  then show ?thesis using False
    by (simp add: filter_selected_edges_by_source_nodes_and_target_nodes_def c1 c2 Let_def)
qed

lemma select_eq_map: "select_eq (map f xs) (map g xs) k = map g (filter (\<lambda>x. f x = k) xs)"
  unfolding select_eq_def by (induction xs) auto

lemma sum_list_partition:
  fixes g :: "'a \<Rightarrow> real"
  assumes "distinct ys" "f ` set xs \<subseteq> set ys"
  shows "(\<Sum>y\<leftarrow>ys. \<Sum>x\<leftarrow>filter (\<lambda>x. f x = y) xs. g x) = (\<Sum>x\<leftarrow>xs. g x)"
  using assms(2)
proof (induction xs)
  case Nil
  then show ?case by simp
next
  case (Cons x xs)
  have "(\<Sum>y\<leftarrow>ys. \<Sum>x\<leftarrow>filter (\<lambda>x. f x = y) (x # xs). g x)
        = (\<Sum>y\<leftarrow>ys. (if f x = y then g x else 0) + (\<Sum>x\<leftarrow>filter (\<lambda>x. f x = y) xs. g x))"
    by (rule arg_cong[where f = sum_list]) (auto intro!: map_cong)
  also have "\<dots> = (\<Sum>y\<leftarrow>ys. if f x = y then g x else 0)
                  + (\<Sum>y\<leftarrow>ys. \<Sum>x\<leftarrow>filter (\<lambda>x. f x = y) xs. g x)"
    by (simp add: sum_list_addf)
  also have "(\<Sum>y\<leftarrow>ys. if f x = y then g x else 0) = g x"
    using assms(1) Cons.prems
    by (simp add: sum_list_distinct_conv_sum_set sum.delta')
  finally show ?case using Cons by simp
qed

subsection \<open>Candidate probabilities\<close>

lemma sum_list_pos_real:
  fixes f :: "'a \<Rightarrow> real"
  assumes "xs \<noteq> []" "\<forall>x \<in> set xs. 0 < f x"
  shows "0 < (\<Sum>x\<leftarrow>xs. f x)"
  using assms
proof (induction xs)
  case Nil
  then show ?case by simp
next
  case (Cons a xs)
  show ?case
  proof (cases "xs = []")
    case True
    then show ?thesis using Cons.prems by simp
  next
    case False
    then have "0 < (\<Sum>x\<leftarrow>xs. f x)" using Cons by simp
    moreover have "0 < f a" using Cons.prems by simp
    ultimately show ?thesis by simp
  qed
qed

lemma get_candidate_source_nodes_probabilities_eq:
  assumes "\<forall>i \<in> set cand. i < length es" "length ws = length es"
  shows "get_candidate_source_nodes_probabilities cand es ws =
           (let srcs = unique (map (\<lambda>i. fst (es ! i)) cand)
            in if srcs \<noteq> [] \<and> (\<Sum>i\<leftarrow>cand. ws ! i) = 0 then Inl ZeroDivisionError
               else Inr (srcs, map (spec_probability es ws cand) srcs))"
proof -
  have a: "index_select es cand = Inr (map (\<lambda>i. es ! i) cand)"
    using assms by (simp add: index_select_Inr)
  have b: "index_select ws cand = Inr (map (\<lambda>i. ws ! i) cand)"
    using assms by (simp add: index_select_Inr)
  show ?thesis
    unfolding get_candidate_source_nodes_probabilities_def a b
    by (simp add: Let_def select_eq_map spec_probability_def comp_def)
qed

lemma sum_spec_probability:
  assumes "(\<Sum>i\<leftarrow>cand. ws ! i) \<noteq> 0"
  shows "sum_list (map (spec_probability es ws cand) (unique (map (\<lambda>i. fst (es ! i)) cand))) = 1"
proof -
  let ?srcs = "unique (map (\<lambda>i. fst (es ! i)) cand)"
  let ?T = "\<Sum>i\<leftarrow>cand. ws ! i"
  have "(\<Sum>s\<leftarrow>?srcs. \<Sum>i\<leftarrow>filter (\<lambda>i. fst (es ! i) = s) cand. ws ! i) = ?T"
    by (rule sum_list_partition) (auto simp: distinct_unique set_unique)
  moreover have "sum_list (map (spec_probability es ws cand) ?srcs)
        = (\<Sum>s\<leftarrow>?srcs. \<Sum>i\<leftarrow>filter (\<lambda>i. fst (es ! i) = s) cand. ws ! i) * inverse ?T"
    unfolding spec_probability_def divide_inverse
    by (simp add: sum_list_mult_const comp_def)
  ultimately show ?thesis using assms by simp
qed

lemma spec_probability_pos:
  assumes "\<forall>i \<in> set cand. 0 < ws ! i" "s \<in> set (map (\<lambda>i. fst (es ! i)) cand)"
  shows "0 < spec_probability es ws cand s"
proof -
  have ne: "cand \<noteq> []" using assms(2) by auto
  have "filter (\<lambda>i. fst (es ! i) = s) cand \<noteq> []"
    using assms(2) by (auto simp: filter_empty_conv)
  then have "0 < (\<Sum>i\<leftarrow>filter (\<lambda>i. fst (es ! i) = s) cand. ws ! i)"
    using assms(1) by (intro sum_list_pos_real) auto
  moreover have "0 < (\<Sum>i\<leftarrow>cand. ws ! i)"
    using assms(1) ne by (intro sum_list_pos_real) auto
  ultimately show ?thesis by (simp add: spec_probability_def)
qed

subsection \<open>The selection of source nodes\<close>

lemma unique_cong_set: "set xs = set ys \<Longrightarrow> unique xs = unique ys"
  using sorted_distinct_set_unique[OF sorted_unique distinct_unique sorted_unique distinct_unique,
      of xs ys]
  by (simp add: set_unique)

lemma select_source_nodes_all:
  "int (length srcs) \<le> b \<Longrightarrow> select_source_nodes srcs probs b g = Inr (srcs, g)"
  by (simp add: select_source_nodes_def)

lemma select_source_nodes_draw:
  assumes "b < int (length srcs)" "0 \<le> b" "length probs = length srcs"
    "\<forall>p \<in> set probs. 0 \<le> p" "sum_list probs = 1"
  shows "select_source_nodes srcs probs b g =
           Inr (unique (map (\<lambda>k. srcs ! (g k mod length srcs)) [0..<nat b]),
                \<lambda>k. g (k + nat b))"
proof -
  have n: "length srcs \<noteq> 0" using assms by auto
  have ch: "choice g (length srcs) b probs =
          Inr (map (\<lambda>k. g k mod length srcs) [0..<nat b], \<lambda>k. g (k + nat b))"
    using assms n by (auto simp: choice_def)
  have "unique (map (\<lambda>i. srcs ! i) (unique (unique (map (\<lambda>k. g k mod length srcs) [0..<nat b]))))
        = unique (map (\<lambda>k. srcs ! (g k mod length srcs)) [0..<nat b])"
    by (rule unique_cong_set) (auto simp: set_unique)
  then show ?thesis using assms(1) by (simp add: select_source_nodes_def ch)
qed


subsection \<open>Per-target normalisation\<close>

lemma select_eq_nth:
  assumes "length ks = length vs"
  shows "select_eq ks vs k = map ((!) vs) (filter (\<lambda>i. ks ! i = k) [0..<length ks])"
proof -
  have "select_eq (map ((!) ks) [0..<length ks]) (map ((!) vs) [0..<length ks]) k
        = map ((!) vs) (filter (\<lambda>i. ks ! i = k) [0..<length ks])"
    by (rule select_eq_map)
  moreover have "map ((!) vs) [0..<length ks] = vs"
    unfolding assms by (rule map_nth)
  ultimately show ?thesis by (simp add: map_nth)
qed

lemma length_normalize_step:
  "length ei = length w \<Longrightarrow> length (normalize_step ei t w) = length w"
  by (simp add: normalize_step_def Let_def)

lemma nth_normalize_step:
  assumes "length ei = length w" "i < length w"
  shows "normalize_step ei t w ! i =
           (if snd (ei ! i) = t then w ! i / sum_list (select_eq (map snd ei) w t) else w ! i)"
  using assms by (simp add: normalize_step_def Let_def)

lemma group_sum_cong:
  assumes "length ei = length w" "length w' = length w"
    "\<And>i. i < length w \<Longrightarrow> snd (ei ! i) = t \<Longrightarrow> w' ! i = w ! i"
  shows "sum_list (select_eq (map snd ei) w' t) = sum_list (select_eq (map snd ei) w t)"
proof -
  let ?I = "filter (\<lambda>i. map snd ei ! i = t) [0..<length (map snd ei)]"
  have a: "select_eq (map snd ei) w' t = map ((!) w') ?I"
    using assms by (intro select_eq_nth) simp
  have b: "select_eq (map snd ei) w t = map ((!) w) ?I"
    using assms by (intro select_eq_nth) simp
  have "map ((!) w') ?I = map ((!) w) ?I"
    using assms by (intro map_cong) auto
  then show ?thesis
    unfolding a b by (rule arg_cong)
qed

lemma fold_normalize_step:
  assumes "length ei = length w" "distinct ts"
  shows "length (fold (normalize_step ei) ts w) = length w \<and>
         (\<forall>i < length w. fold (normalize_step ei) ts w ! i =
            (if snd (ei ! i) \<in> set ts
             then w ! i / sum_list (select_eq (map snd ei) w (snd (ei ! i)))
             else w ! i))"
  using assms
proof (induction ts arbitrary: w)
  case Nil
  then show ?case by simp
next
  case (Cons t ts)
  let ?w' = "normalize_step ei t w"
  have len: "length ?w' = length w" using Cons.prems by (simp add: length_normalize_step)
  have ih: "length (fold (normalize_step ei) ts ?w') = length ?w' \<and>
         (\<forall>i < length ?w'. fold (normalize_step ei) ts ?w' ! i =
            (if snd (ei ! i) \<in> set ts
             then ?w' ! i / sum_list (select_eq (map snd ei) ?w' (snd (ei ! i)))
             else ?w' ! i))"
    using Cons.prems len by (intro Cons.IH) auto
  have same: "sum_list (select_eq (map snd ei) ?w' u) = sum_list (select_eq (map snd ei) w u)"
    if "u \<noteq> t" for u
    using Cons.prems(1) len that
    by (intro group_sum_cong) (auto simp: nth_normalize_step)
  have "fold (normalize_step ei) (t # ts) w ! i =
            (if snd (ei ! i) \<in> set (t # ts)
             then w ! i / sum_list (select_eq (map snd ei) w (snd (ei ! i)))
             else w ! i)" if i: "i < length w" for i
  proof (cases "snd (ei ! i) \<in> set ts")
    case True
    then have ne: "snd (ei ! i) \<noteq> t" using Cons.prems(2) by auto
    have "fold (normalize_step ei) (t # ts) w ! i
          = ?w' ! i / sum_list (select_eq (map snd ei) ?w' (snd (ei ! i)))"
      using ih i len True by simp
    also have "\<dots> = w ! i / sum_list (select_eq (map snd ei) w (snd (ei ! i)))"
      using ne i Cons.prems(1) by (simp add: same nth_normalize_step)
    finally show ?thesis using True by simp
  next
    case False
    have "fold (normalize_step ei) (t # ts) w ! i = ?w' ! i"
      using ih i len False by simp
    then show ?thesis using False i Cons.prems(1) by (simp add: nth_normalize_step)
  qed
  then show ?case using ih len by simp
qed

lemma normalize_group_sum:
  assumes "length ei = length w" "t \<in> snd ` set ei"
    "sum_list (select_eq (map snd ei) w t) \<noteq> 0"
    "normalize_edges_weight_by_target_nodes ei w = Inr nw"
  shows "sum_list (select_eq (map snd ei) nw t) = 1"
proof -
  let ?ts = "unique (map snd ei)"
  let ?S = "sum_list (select_eq (map snd ei) w t)"
  have nw: "nw = fold (normalize_step ei) ?ts w"
    using assms by (simp add: normalize_edges_weight_by_target_nodes_def)
  have cf: "length nw = length w \<and>
         (\<forall>i < length w. nw ! i =
            (if snd (ei ! i) \<in> set ?ts
             then w ! i / sum_list (select_eq (map snd ei) w (snd (ei ! i)))
             else w ! i))"
    unfolding nw using assms(1) by (intro fold_normalize_step) (auto simp: distinct_unique)
  have mem: "t \<in> set ?ts" using assms(2) by (simp add: set_unique)
  let ?I = "filter (\<lambda>i. map snd ei ! i = t) [0..<length (map snd ei)]"
  have a: "select_eq (map snd ei) nw t = map ((!) nw) ?I"
    using cf assms(1) by (intro select_eq_nth) simp
  have b: "select_eq (map snd ei) w t = map ((!) w) ?I"
    using assms(1) by (intro select_eq_nth) simp
  have "map ((!) nw) ?I = map (\<lambda>i. w ! i * inverse ?S) ?I"
    using cf mem assms(1) by (intro map_cong) (auto simp: divide_inverse)
  then have "sum_list (select_eq (map snd ei) nw t) = sum_list (map (\<lambda>i. w ! i * inverse ?S) ?I)"
    unfolding a by (rule arg_cong)
  also have "\<dots> = sum_list (map ((!) w) ?I) * inverse ?S"
    by (simp only: sum_list_mult_const)
  also have "sum_list (map ((!) w) ?I) = ?S"
    unfolding b by (rule refl)
  finally show ?thesis using assms(3) by simp
qed

subsection \<open>Looking up the probability of a source node\<close>

lemma filter_eq_singleton: "distinct xs \<Longrightarrow> s \<in> set xs \<Longrightarrow> filter (\<lambda>x. x = s) xs = [s]"
  by (induction xs) (auto simp: filter_empty_conv)

lemma source_probability_map:
  assumes "distinct srcs" "s \<in> set srcs"
  shows "source_probability err srcs (map F srcs) s = Inr (F s)"
proof -
  have "select_eq (map (\<lambda>x. x) srcs) (map F srcs) s = map F (filter (\<lambda>x. x = s) srcs)"
    by (rule select_eq_map)
  then have "select_eq srcs (map F srcs) s = [F s]"
    using assms by (simp add: filter_eq_singleton)
  then show ?thesis by (simp add: source_probability_def)
qed

lemma collect_Inr:
  "\<forall>x \<in> set xs. f x = Inr (h x) \<Longrightarrow> collect (map f xs) = Inr (map h xs)"
  by (induction xs) auto

lemma collect_length: "collect xs = Inr ys \<Longrightarrow> length ys = length xs"
  by (induction xs arbitrary: ys) (auto split: sum.splits)

subsection \<open>One layer: the successful runs\<close>

lemma sample_layer_locals_InrE:
  assumes "sample_layer_locals st ts b = (Inr l, st')"
  obtains cand srcs probs sel g' filtered sw se ps nw where
    "candidate_edge_indexes (torch_cat_error st) (all_edge_index_with_self_loops (self st)) ts
       = Inr cand"
    "get_candidate_source_nodes_probabilities cand (all_edge_index_with_self_loops (self st))
       (all_edge_weights (self st)) = Inr (srcs, probs)"
    "select_source_nodes srcs probs b (np_random st) = Inr (sel, g')"
    "filter_selected_edges_by_source_nodes_and_target_nodes (torch_cat_error st)
       (all_edge_index_with_self_loops (self st)) sel ts = Inr filtered"
    "index_select (all_edge_weights (self st)) (unique filtered) = Inr sw"
    "index_select (all_edge_index_with_self_loops (self st)) (unique filtered) = Inr se"
    "collect (map (source_probability (torch_item_error st) srcs probs) (map fst se)) = Inr ps"
    "normalize_edges_weight_by_target_nodes se
       (map2 (\<lambda>w p. w / (real (length sel) * p)) sw ps) = Inr nw"
    "l = \<lparr>all_candidate_edge_indexes = cand,
          all_candidate_source_nodes_indexes = srcs,
          all_candidate_source_nodes_probabilities = probs,
          selected_source_node_indexes = sel,
          selected_edges_indexes = unique filtered,
          non_normalized_selected_edges_weight = map2 (\<lambda>w p. w / (real (length sel) * p)) sw ps,
          selected_edge_index = se,
          normalized_selected_edges_weight = nw\<rparr>"
    "st' = st\<lparr>np_random := g'\<rparr>"
  using assms unfolding sample_layer_locals_def Let_def
  by (auto split: sum.splits prod.splits)

lemma sample_layer_locals_self:
  "self (snd (sample_layer_locals st ts b)) = self st"
  unfolding sample_layer_locals_def Let_def
  by (auto split: sum.splits prod.splits)

lemma select_source_nodes_subset:
  assumes "select_source_nodes srcs probs b g = Inr (sel, g')"
  shows "set sel \<subseteq> set srcs"
proof (cases "b < int (length srcs)")
  case True
  from assms True obtain draws where
    ch: "choice g (length srcs) b probs = Inr (draws, g')"
    and sel: "sel = unique (map (\<lambda>i. srcs ! i) (unique (unique draws)))"
    by (auto simp: select_source_nodes_def split: sum.splits)
  from ch have d: "draws = map (\<lambda>k. g k mod length srcs) [0..<nat b]" and n: "0 \<le> b"
    by (auto simp: choice_def split: if_splits)
  have "length srcs \<noteq> 0" using True n by auto
  then show ?thesis unfolding sel d by (auto simp: set_unique)
next
  case False
  then show ?thesis using assms by (simp add: select_source_nodes_def)
qed

lemma select_source_nodes_distinct:
  assumes "select_source_nodes srcs probs b g = Inr (sel, g')" "distinct srcs"
  shows "distinct sel"
  using assms
  by (auto simp: select_source_nodes_def distinct_unique split: if_splits sum.splits)

lemma unique_filter_upt: "unique (filter P [0..<n]) = filter P [0..<n]"
  by (rule unique_sorted_distinct) (simp_all add: sorted_wrt_filter)

lemma sample_layer_locals_closed:
  fixes st :: state
  defines "E \<equiv> all_edge_index_with_self_loops (self st)"
    and "W \<equiv> all_edge_weights (self st)"
  assumes wf: "length W = length E" "\<forall>i < length E. 0 < W ! i"
    and ts: "ts \<noteq> []"
    and cand: "cand = spec_candidate_edges E ts"
    and srcs: "srcs = unique (map (\<lambda>i. fst (E ! i)) cand)"
    and probs: "probs = map (spec_probability E W cand) srcs"
    and sel: "select_source_nodes srcs probs b (np_random st) = Inr (sel, g')"
    and ne: "sel \<noteq> []"
    and sidx: "sidx = filter (\<lambda>i. fst (E ! i) \<in> set sel \<and> snd (E ! i) \<in> set ts) [0..<length E]"
    and raw: "raw = map (spec_raw_weight E W cand sel) sidx"
  shows "sample_layer_locals st ts b =
           (Inr \<lparr>all_candidate_edge_indexes = cand,
                 all_candidate_source_nodes_indexes = srcs,
                 all_candidate_source_nodes_probabilities = probs,
                 selected_source_node_indexes = sel,
                 selected_edges_indexes = sidx,
                 non_normalized_selected_edges_weight = raw,
                 selected_edge_index = map ((!) E) sidx,
                 normalized_selected_edges_weight =
                   fold (normalize_step (map ((!) E) sidx)) (unique (map snd (map ((!) E) sidx))) raw\<rparr>,
            st\<lparr>np_random := g'\<rparr>)"
    and "0 < (\<Sum>i\<leftarrow>cand. W ! i)"
    and "\<forall>s \<in> set srcs. 0 < spec_probability E W cand s"
    and "\<forall>x \<in> set raw. 0 < x"
    and "set sel \<subseteq> set srcs" and "distinct sel"
proof -
  have sub: "set sel \<subseteq> set srcs" using sel by (rule select_source_nodes_subset)
  have dsrcs: "distinct srcs" unfolding srcs by (rule distinct_unique)
  have dsel: "distinct sel" using sel dsrcs by (rule select_source_nodes_distinct)
  show "set sel \<subseteq> set srcs" by (rule sub)
  show "distinct sel" by (rule dsel)
  have c1: "candidate_edge_indexes (torch_cat_error st) E ts = Inr cand"
    using ts by (simp add: candidate_edge_indexes_eq cand spec_candidate_edges_def)
  have cand_lt: "\<forall>i \<in> set cand. i < length E"
    by (auto simp: cand spec_candidate_edges_def)
  have "srcs \<noteq> []" using ne sub by auto
  then have cand_ne: "cand \<noteq> []" by (auto simp: srcs unique_def)
  have wpos: "\<forall>i \<in> set cand. 0 < W ! i" using cand_lt wf(2) by auto
  show tot: "0 < (\<Sum>i\<leftarrow>cand. W ! i)"
    using cand_ne wpos by (intro sum_list_pos_real) auto
  have c2: "get_candidate_source_nodes_probabilities cand E W = Inr (srcs, probs)"
    using tot cand_lt wf(1)
    by (simp add: get_candidate_source_nodes_probabilities_eq Let_def srcs probs)
  show ppos: "\<forall>s \<in> set srcs. 0 < spec_probability E W cand s"
    using wpos by (auto simp: srcs set_unique intro!: spec_probability_pos)
  have c4: "filter_selected_edges_by_source_nodes_and_target_nodes (torch_cat_error st) E sel ts
            = Inr sidx"
    using ne ts by (simp add: filter_selected_eq sidx)
  have u: "unique sidx = sidx" unfolding sidx by (rule unique_filter_upt)
  have sidx_lt: "\<forall>i \<in> set sidx. i < length E" by (auto simp: sidx)
  have c5: "index_select W sidx = Inr (map ((!) W) sidx)"
    using sidx_lt wf(1) by (simp add: index_select_Inr)
  have c6: "index_select E sidx = Inr (map ((!) E) sidx)"
    using sidx_lt by (simp add: index_select_Inr)
  have "\<forall>i \<in> set sidx. source_probability (torch_item_error st) srcs probs (fst (E ! i))
          = Inr (spec_probability E W cand (fst (E ! i)))"
    using sub dsrcs unfolding probs
    by (auto simp: sidx intro!: source_probability_map)
  then have c7: "collect (map (source_probability (torch_item_error st) srcs probs)
                            (map fst (map ((!) E) sidx)))
        = Inr (map (\<lambda>i. spec_probability E W cand (fst (E ! i))) sidx)"
    using collect_Inr[of sidx "\<lambda>i. source_probability (torch_item_error st) srcs probs (fst (E ! i))"
        "\<lambda>i. spec_probability E W cand (fst (E ! i))"]
    by (simp add: comp_def)
  have r: "map2 (\<lambda>w p. w / (real (length sel) * p)) (map ((!) W) sidx)
             (map (\<lambda>i. spec_probability E W cand (fst (E ! i))) sidx) = raw"
    unfolding raw spec_raw_weight_def using distinct_card[OF dsel]
    by (simp add: map2_map_map)
  have c8: "normalize_edges_weight_by_target_nodes (map ((!) E) sidx) raw
        = Inr (fold (normalize_step (map ((!) E) sidx)) (unique (map snd (map ((!) E) sidx))) raw)"
    by (simp add: normalize_edges_weight_by_target_nodes_def raw)
  show "sample_layer_locals st ts b =
           (Inr \<lparr>all_candidate_edge_indexes = cand,
                 all_candidate_source_nodes_indexes = srcs,
                 all_candidate_source_nodes_probabilities = probs,
                 selected_source_node_indexes = sel,
                 selected_edges_indexes = sidx,
                 non_normalized_selected_edges_weight = raw,
                 selected_edge_index = map ((!) E) sidx,
                 normalized_selected_edges_weight =
                   fold (normalize_step (map ((!) E) sidx)) (unique (map snd (map ((!) E) sidx))) raw\<rparr>,
            st\<lparr>np_random := g'\<rparr>)"
    unfolding sample_layer_locals_def Let_def E_def[symmetric] W_def[symmetric]
    by (simp only: c1 c2 sel c4 u c5 c6 c7 r c8 sum.case prod.case)
  show "\<forall>x \<in> set raw. 0 < x"
  proof
    fix x assume "x \<in> set raw"
    then obtain i where i: "i \<in> set sidx" and x: "x = spec_raw_weight E W cand sel i"
      by (auto simp: raw)
    have "0 < W ! i" using i sidx_lt wf(2) by auto
    moreover have "fst (E ! i) \<in> set srcs" using i sub by (auto simp: sidx)
    then have "0 < spec_probability E W cand (fst (E ! i))" using ppos by simp
    moreover have "0 < card (set sel)" using ne by (simp add: card_gt_0_iff)
    ultimately show "0 < x" unfolding x spec_raw_weight_def by simp
  qed
qed

lemma sample_layer_locals_inversion:
  fixes st :: state
  defines "E \<equiv> all_edge_index_with_self_loops (self st)"
    and "W \<equiv> all_edge_weights (self st)"
  assumes wf: "length W = length E" "\<forall>i < length E. 0 < W ! i"
    and run: "sample_layer_locals st ts b = (Inr l, st')"
  defines "cand \<equiv> spec_candidate_edges E ts"
  defines "srcs \<equiv> unique (map (\<lambda>i. fst (E ! i)) cand)"
  defines "sel \<equiv> selected_source_node_indexes l"
  shows "ts \<noteq> []" and "sel \<noteq> []"
    and "\<exists>g'. select_source_nodes srcs (map (spec_probability E W cand) srcs) b (np_random st)
              = Inr (sel, g') \<and> st' = st\<lparr>np_random := g'\<rparr>"
proof -
  from run obtain cand' srcs' probs' sel' g' filtered where
    a: "candidate_edge_indexes (torch_cat_error st) E ts = Inr cand'"
    and b: "get_candidate_source_nodes_probabilities cand' E W = Inr (srcs', probs')"
    and c: "select_source_nodes srcs' probs' b (np_random st) = Inr (sel', g')"
    and d: "filter_selected_edges_by_source_nodes_and_target_nodes (torch_cat_error st) E sel' ts
            = Inr filtered"
    and l: "selected_source_node_indexes l = sel'"
    and st': "st' = st\<lparr>np_random := g'\<rparr>"
    unfolding E_def W_def by (elim sample_layer_locals_InrE) simp
  from a show ts: "ts \<noteq> []"
    by (auto simp: candidate_edge_indexes_eq split: if_splits)
  from a ts have cand': "cand' = cand"
    by (simp add: candidate_edge_indexes_eq cand_def spec_candidate_edges_def)
  have cand_lt: "\<forall>i \<in> set cand. i < length E"
    by (auto simp: cand_def spec_candidate_edges_def)
  from b have "srcs' = srcs \<and> probs' = map (spec_probability E W cand) srcs"
    unfolding cand' using cand_lt wf(1)
    by (auto simp: get_candidate_source_nodes_probabilities_eq Let_def srcs_def split: if_splits)
  with c l st' show "\<exists>g'. select_source_nodes srcs (map (spec_probability E W cand) srcs) b (np_random st)
              = Inr (sel, g') \<and> st' = st\<lparr>np_random := g'\<rparr>"
    by (auto simp: sel_def)
  from d show "sel \<noteq> []"
    unfolding sel_def l by (auto simp: filter_selected_eq split: if_splits)
qed

lemma sample_layer_locals_total:
  fixes st :: state
  defines "E \<equiv> all_edge_index_with_self_loops (self st)"
    and "W \<equiv> all_edge_weights (self st)"
  assumes wf: "length W = length E" "\<forall>i < length E. 0 < W ! i"
    and ts: "spec_candidate_edges E ts \<noteq> []"
    and b: "0 < b"
  shows "\<exists>l st'. sample_layer_locals st ts b = (Inr l, st')"
proof -
  define cand where "cand = spec_candidate_edges E ts"
  define srcs where "srcs = unique (map (\<lambda>i. fst (E ! i)) cand)"
  define probs where "probs = map (spec_probability E W cand) srcs"
  have tsne: "ts \<noteq> []" using ts by (auto simp: spec_candidate_edges_def)
  have cand_lt: "\<forall>i \<in> set cand. i < length E"
    by (auto simp: cand_def spec_candidate_edges_def)
  have wpos: "\<forall>i \<in> set cand. 0 < W ! i" using cand_lt wf(2) by auto
  have tot: "0 < (\<Sum>i\<leftarrow>cand. W ! i)"
    using ts wpos unfolding cand_def by (intro sum_list_pos_real) auto
  have srcs_ne: "srcs \<noteq> []" using ts by (simp add: srcs_def unique_eq_Nil cand_def)
  have p1: "sum_list probs = 1"
    unfolding probs_def srcs_def using tot by (intro sum_spec_probability) simp
  have p2: "\<forall>p \<in> set probs. 0 \<le> p"
    using wpos unfolding probs_def srcs_def
    by (auto simp: set_unique intro!: less_imp_le spec_probability_pos)
  obtain sel g' where sel: "select_source_nodes srcs probs b (np_random st) = Inr (sel, g')"
    and ne: "sel \<noteq> []"
  proof (cases "b < int (length srcs)")
    case True
    have "select_source_nodes srcs probs b (np_random st) =
           Inr (unique (map (\<lambda>k. srcs ! (np_random st k mod length srcs)) [0..<nat b]),
                \<lambda>k. np_random st (k + nat b))"
      using True b p1 p2 by (intro select_source_nodes_draw) (auto simp: probs_def)
    moreover have "unique (map (\<lambda>k. srcs ! (np_random st k mod length srcs)) [0..<nat b]) \<noteq> []"
      using b by (simp add: unique_eq_Nil)
    ultimately show ?thesis using that by blast
  next
    case False
    then have "select_source_nodes srcs probs b (np_random st) = Inr (srcs, np_random st)"
      by (simp add: select_source_nodes_all)
    then show ?thesis using that srcs_ne by blast
  qed
  show ?thesis
    using sample_layer_locals_closed(1)[of st ts cand srcs probs b sel g', OF wf[unfolded E_def W_def] tsne]
      sel ne
    unfolding cand_def srcs_def probs_def E_def W_def
    by blast
qed

subsection \<open>The sampler built by the constructor\<close>

lemma init_edges: "all_edge_index_with_self_loops (init ei) = add_remaining_self_loops ei"
  by (simp add: init_def Let_def)

lemma init_weights:
  "all_edge_weights (init ei) = compute_edge_weights (add_remaining_self_loops ei)"
  by (simp add: init_def Let_def)

lemma init_length:
  "length (all_edge_weights (init ei)) = length (all_edge_index_with_self_loops (init ei))"
  by (simp add: init_edges init_weights length_compute_edge_weights)

lemma init_pos:
  "\<forall>i < length (all_edge_index_with_self_loops (init ei)). 0 < all_edge_weights (init ei) ! i"
  by (simp add: init_edges init_weights compute_edge_weights_pos)

lemma init_candidates_nonempty:
  assumes "t \<in> set ts" "t < node_count ei"
  shows "spec_candidate_edges (all_edge_index_with_self_loops (init ei)) ts \<noteq> []"
proof -
  have "(t, t) \<in> set (add_remaining_self_loops ei)"
    using assms(2) by (rule self_loop_in_augmented)
  then obtain i where "i < length (add_remaining_self_loops ei)"
    "add_remaining_self_loops ei ! i = (t, t)"
    by (auto simp: in_set_conv_nth)
  then have "i \<in> set (spec_candidate_edges (add_remaining_self_loops ei) ts)"
    using assms(1) by (simp add: spec_candidate_edges_def)
  then show ?thesis by (auto simp: init_edges)
qed

lemma init_sources_in_range:
  assumes "set cand \<subseteq> {..<length (all_edge_index_with_self_loops (init ei))}"
    "s \<in> set (unique (map (\<lambda>i. fst (all_edge_index_with_self_loops (init ei) ! i)) cand))"
  shows "s < node_count ei"
proof -
  from assms obtain i where "i < length (add_remaining_self_loops ei)"
    "s = fst (add_remaining_self_loops ei ! i)"
    by (auto simp: set_unique init_edges)
  then show ?thesis using augmented_endpoints[of "add_remaining_self_loops ei ! i" ei] by simp
qed

subsection \<open>One layer on a constructed sampler\<close>

lemma sample_layer_eq:
  "sample_layer st ts b =
     (case sample_layer_locals st ts b of
        (Inl e, st') \<Rightarrow> (Inl e, st')
      | (Inr l, st') \<Rightarrow>
          (Inr (selected_edge_index l, normalized_selected_edges_weight l,
                selected_source_node_indexes l, selected_edges_indexes l), st'))"
  by (simp add: sample_layer_def)

lemma sample_layer_self: "self (snd (sample_layer st ts b)) = self st"
  using sample_layer_locals_self[of st ts b]
  by (auto simp: sample_layer_def split: prod.splits sum.splits)

lemma sample_layer_step:
  assumes "self st = init ei" "ts \<noteq> []" "\<forall>t \<in> set ts. t < node_count ei" "0 < b"
  shows "\<exists>e w sel idx st'. sample_layer st ts b = (Inr (e, w, sel, idx), st')
           \<and> self st' = init ei \<and> sel \<noteq> [] \<and> (\<forall>t \<in> set sel. t < node_count ei)"
proof -
  let ?E = "all_edge_index_with_self_loops (self st)"
  let ?W = "all_edge_weights (self st)"
  have wf: "length ?W = length ?E" "\<forall>i < length ?E. 0 < ?W ! i"
    using assms(1) by (simp_all add: init_length init_pos)
  obtain t where t: "t \<in> set ts" using assms(2) by (cases ts) auto
  then have "t < node_count ei" using assms(3) by simp
  then have "spec_candidate_edges ?E ts \<noteq> []"
    unfolding assms(1) using t by (intro init_candidates_nonempty)
  with wf assms(4) obtain l st' where run: "sample_layer_locals st ts b = (Inr l, st')"
    using sample_layer_locals_total[of st ts b] by blast
  let ?cand = "spec_candidate_edges ?E ts"
  let ?srcs = "unique (map (\<lambda>i. fst (?E ! i)) ?cand)"
  let ?sel = "selected_source_node_indexes l"
  from sample_layer_locals_inversion[OF wf run]
  obtain g' where ne: "?sel \<noteq> []"
    and sel: "select_source_nodes ?srcs (map (spec_probability ?E ?W ?cand) ?srcs) b (np_random st)
              = Inr (?sel, g')"
    and st': "st' = st\<lparr>np_random := g'\<rparr>"
    by blast
  have sub: "set ?sel \<subseteq> set ?srcs" using sel by (rule select_source_nodes_subset)
  have "\<forall>s \<in> set ?srcs. s < node_count ei"
    using assms(1) init_sources_in_range[of ?cand ei]
    by (auto simp: spec_candidate_edges_def)
  then have "\<forall>t \<in> set ?sel. t < node_count ei" using sub by blast
  moreover have "self st' = init ei" using st' assms(1) by simp
  ultimately show ?thesis using run ne by (simp add: sample_layer_eq)
qed

subsection \<open>The loop over the layers\<close>

lemma sample_loop_acc:
  "sample_loop st ts bs acc =
     (case sample_loop st ts bs [] of
        (Inl e, st') \<Rightarrow> (Inl e, st')
      | (Inr ls, st') \<Rightarrow> (Inr (acc @ ls), st'))"
proof (induction bs arbitrary: st ts acc)
  case Nil
  then show ?case by simp
next
  case (Cons b bs)
  show ?case
  proof (cases "sample_layer st ts b")
    case (Pair r st1)
    show ?thesis
    proof (cases r)
      case (Inl e)
      then show ?thesis using Pair by simp
    next
      case (Inr q)
      obtain e w sel idx where q: "q = (e, w, sel, idx)" by (cases q) auto
      have "sample_loop st (ts) (b # bs) acc
            = sample_loop st1 sel bs (acc @ [[EdgeIndexT e, FloatT w]])"
        using Pair Inr q by simp
      also have "\<dots> = (case sample_loop st1 sel bs [] of
                          (Inl e', st') \<Rightarrow> (Inl e', st')
                        | (Inr ls, st') \<Rightarrow> (Inr ((acc @ [[EdgeIndexT e, FloatT w]]) @ ls), st'))"
        by (rule Cons.IH)
      finally have lhs: "sample_loop st ts (b # bs) acc =
                       (case sample_loop st1 sel bs [] of
                          (Inl e', st') \<Rightarrow> (Inl e', st')
                        | (Inr ls, st') \<Rightarrow> (Inr ((acc @ [[EdgeIndexT e, FloatT w]]) @ ls), st'))" .
      have "sample_loop st ts (b # bs) [] = sample_loop st1 sel bs [[EdgeIndexT e, FloatT w]]"
        using Pair Inr q by simp
      also have "\<dots> = (case sample_loop st1 sel bs [] of
                          (Inl e', st') \<Rightarrow> (Inl e', st')
                        | (Inr ls, st') \<Rightarrow> (Inr ([[EdgeIndexT e, FloatT w]] @ ls), st'))"
        by (rule Cons.IH)
      finally show ?thesis unfolding lhs
        by (auto split: prod.splits sum.splits)
    qed
  qed
qed

lemma sample_loop_self: "self (snd (sample_loop st ts bs acc)) = self st"
proof (induction bs arbitrary: st ts acc)
  case Nil
  then show ?case by simp
next
  case (Cons b bs)
  show ?case
    using sample_layer_self[of st ts b] Cons.IH
    by (auto split: prod.splits sum.splits)
qed

lemma sample_self: "self (snd (sample st ts bs)) = self st"
  using sample_loop_self[of st ts "rev bs" "[]"]
  by (auto simp: sample_def split: prod.splits sum.splits)

lemma sample_snoc:
  "sample st ts (bs @ [b]) =
     (case sample_layer st ts b of
        (Inl e, st1) \<Rightarrow> (Inl e, st1)
      | (Inr (e, w, sel, idx), st1) \<Rightarrow>
          if bs = [] then (Inr [[EdgeIndexT e, FloatT w]], st1)
          else (case sample st1 sel bs of
                  (Inl e', st2) \<Rightarrow> (Inl e', st2)
                | (Inr ls, st2) \<Rightarrow> (Inr (ls @ [[EdgeIndexT e, FloatT w]]), st2)))"
proof (cases "sample_layer st ts b")
  case (Pair r st1)
  show ?thesis
  proof (cases r)
    case (Inl e)
    then show ?thesis using Pair by (simp add: sample_def)
  next
    case (Inr q)
    obtain e w sel idx where q: "q = (e, w, sel, idx)" by (cases q) auto
    have "sample_loop st ts (b # rev bs) [] = sample_loop st1 sel (rev bs) [[EdgeIndexT e, FloatT w]]"
      using Pair Inr q by simp
    also have "\<dots> = (case sample_loop st1 sel (rev bs) [] of
                          (Inl e', st') \<Rightarrow> (Inl e', st')
                        | (Inr ls, st') \<Rightarrow> (Inr ([[EdgeIndexT e, FloatT w]] @ ls), st'))"
      by (rule sample_loop_acc)
    finally have "sample_loop st ts (b # rev bs) [] =
         (case sample_loop st1 sel (rev bs) [] of
                          (Inl e', st') \<Rightarrow> (Inl e', st')
                        | (Inr ls, st') \<Rightarrow> (Inr ([[EdgeIndexT e, FloatT w]] @ ls), st'))" .
    then show ?thesis using Pair Inr q
      by (auto simp: sample_def split: prod.splits sum.splits)
  qed
qed

section \<open>The claims about the sampler\<close>

text \<open>
  Claim C8. For every edge of the self-loop-augmented edge set the stored weight is
  \<open>(1 / outdeg (src e)) \<cdot> (1 / indeg (tgt e))\<close>, the degrees counting occurrences as source
  and as target; the reciprocal of a zero degree, an infinity, is replaced by \<open>0\<close>; and
  the weights are those computed by the constructor also after any call of \<open>sample\<close>.
\<close>

theorem edge_weight_formula:
  assumes "self st = init ei"
    and "i < length (all_edge_index_with_self_loops (self st))"
  shows "all_edge_weights (self st) ! i =
           (1 / real (count_list (map fst (all_edge_index_with_self_loops (self st)))
                        (fst (all_edge_index_with_self_loops (self st) ! i))))
           * (1 / real (count_list (map snd (all_edge_index_with_self_loops (self st)))
                          (snd (all_edge_index_with_self_loops (self st) ! i))))
         \<and> zero_inf (reciprocal d) = (if d = 0 then 0 else 1 / d)
         \<and> all_edge_weights (self (snd (sample st ts bs))) = all_edge_weights (self st)"
proof -
  have "all_edge_weights (self st) ! i =
           (1 / real (count_list (map fst (all_edge_index_with_self_loops (self st)))
                        (fst (all_edge_index_with_self_loops (self st) ! i))))
           * (1 / real (count_list (map snd (all_edge_index_with_self_loops (self st)))
                          (snd (all_edge_index_with_self_loops (self st) ! i))))"
    using assms by (simp add: init_edges init_weights nth_compute_edge_weights)
  then show ?thesis by (simp add: sample_self zero_inf_reciprocal)
qed

theorem edge_weight_formula_witness:
  "all_edge_weights (init [(0, 1), (1, 2), (2, 3)]) ! 3 = 1 / 2 * (1 / 1)
   \<and> all_edge_weights
        (self (snd (sample \<lparr>self = init [(0, 1), (1, 2), (2, 3)], np_random = id,
       torch_cat_error = RuntimeError, torch_item_error = ValueError\<rparr> [3] [2, 2])))
      = all_edge_weights (init [(0, 1), (1, 2), (2, 3)])"
proof -
  let ?st = "\<lparr>self = init [(0, 1), (1, 2), (2, 3)], np_random = id,
       torch_cat_error = RuntimeError, torch_item_error = ValueError\<rparr>"
  have h1: "self ?st = init [(0, 1), (1, 2), (2, 3)]" by simp
  have h2: "3 < length (all_edge_index_with_self_loops (self ?st))" by code_simp
  have c1: "count_list (map fst (all_edge_index_with_self_loops (self ?st)))
              (fst (all_edge_index_with_self_loops (self ?st) ! 3)) = 2"
    by code_simp
  have c2: "count_list (map snd (all_edge_index_with_self_loops (self ?st)))
              (snd (all_edge_index_with_self_loops (self ?st) ! 3)) = 1"
    by code_simp
  show ?thesis
    using edge_weight_formula[OF h1 h2, where ts = "[3]" and bs = "[2, 2]" and d = 0]
    unfolding c1 c2 by simp
qed

text \<open>
  Claim C9. After the self-loop augmentation of the constructor every node of the
  resulting edge set occurs at least once as a source and at least once as a target, and
  the edge set is the same after any call of \<open>sample\<close>.
\<close>

theorem self_loops_give_positive_degrees:
  assumes "self st = init ei"
    and "n < node_count (all_edge_index_with_self_loops (self st))"
  shows "1 \<le> count_list (map fst (all_edge_index_with_self_loops (self st))) n
         \<and> 1 \<le> count_list (map snd (all_edge_index_with_self_loops (self st))) n
         \<and> all_edge_index_with_self_loops (self (snd (sample st ts bs)))
             = all_edge_index_with_self_loops (self st)"
proof -
  have "n < node_count ei"
    using assms by (simp add: init_edges node_count_augmented)
  then have "(n, n) \<in> set (add_remaining_self_loops ei)"
    by (rule self_loop_in_augmented)
  then have a: "n \<in> set (map fst (add_remaining_self_loops ei))"
    and b: "n \<in> set (map snd (add_remaining_self_loops ei))"
    by force+
  show ?thesis
    using count_list_pos[OF a] count_list_pos[OF b] assms(1)
    by (simp add: init_edges sample_self)
qed

theorem self_loops_give_positive_degrees_witness:
  "1 \<le> count_list (map fst (all_edge_index_with_self_loops (init [(0, 1), (1, 2), (2, 3)]))) 3
   \<and> 1 \<le> count_list (map snd (all_edge_index_with_self_loops (init [(0, 1), (1, 2), (2, 3)]))) 3"
proof -
  let ?st = "\<lparr>self = init [(0, 1), (1, 2), (2, 3)], np_random = id,
       torch_cat_error = RuntimeError, torch_item_error = ValueError\<rparr>"
  have h1: "self ?st = init [(0, 1), (1, 2), (2, 3)]" by simp
  have h2: "3 < node_count (all_edge_index_with_self_loops (self ?st))" by code_simp
  show ?thesis
    using self_loops_give_positive_degrees[OF h1 h2, of "[3]" "[2]"] by simp
qed

lemma index_select_InrD:
  "index_select t ixs = Inr r \<Longrightarrow> r = map ((!) t) ixs \<and> (\<forall>i \<in> set ixs. i < length t)"
  by (auto simp: index_select_def split: if_splits)

text \<open>
  Claim C2, as the code has it. When the target-node tensor is empty, the first statement of
  the layer-sampling step fails: the list of per-target position tensors is empty and
  \<^verbatim>\<open>torch.cat\<close> rejects it. The source has no check of its own, so the exception is the
  one of the installed tensor library, whatever its class: the call raises a \<open>ValueError\<close>
  exactly when that class is \<open>ValueError\<close>. No probability has been computed and nothing
  was drawn, so the state is unchanged.
\<close>

theorem empty_targets_raise:
  "candidate_edge_indexes (torch_cat_error st) (all_edge_index_with_self_loops (self st)) []
     = Inl (torch_cat_error st)
   \<and> sample_layer_locals st [] b = (Inl (torch_cat_error st), st)
   \<and> sample_layer st [] b = (Inl (torch_cat_error st), st)
   \<and> (fst (sample_layer st [] b) = Inl ValueError) = (torch_cat_error st = ValueError)"
  by (simp add: candidate_edge_indexes_eq sample_layer_locals_def sample_layer_def)

theorem empty_targets_raise_witness:
  "sample_layer \<lparr>self = init [(0, 1), (1, 2), (2, 3)], np_random = id,
       torch_cat_error = ValueError, torch_item_error = ValueError\<rparr> [] 2
     = (Inl ValueError, \<lparr>self = init [(0, 1), (1, 2), (2, 3)], np_random = id,
       torch_cat_error = ValueError, torch_item_error = ValueError\<rparr>)"
  using empty_targets_raise[of "\<lparr>self = init [(0, 1), (1, 2), (2, 3)], np_random = id,
       torch_cat_error = ValueError, torch_item_error = ValueError\<rparr>" 2]
  by simp

theorem empty_targets_value_error_counterexample:
  "fst (sample_layer \<lparr>self = init [(0, 1), (1, 2), (2, 3)], np_random = id,
       torch_cat_error = RuntimeError, torch_item_error = ValueError\<rparr> [] 2)
     \<noteq> Inl ValueError"
  by (simp add: candidate_edge_indexes_eq sample_layer_locals_def sample_layer_def)

text \<open>
  Claim C5. In every layer sample the selected edge indexes are exactly the indexes of the
  edges of the full self-loop-augmented edge set whose source is a selected source node and
  whose target is a target node, in ascending order; membership in the candidate edge set
  plays no part, so such an edge outside the candidate set is included as well. The
  returned edge index holds these edges.
\<close>

theorem selected_edges_from_full_edge_set:
  assumes "sample_layer st ts b = (Inr (e, w, sel, idx), st')"
  shows "set idx = spec_selected_edges (all_edge_index_with_self_loops (self st)) sel ts
         \<and> sorted idx \<and> distinct idx
         \<and> spec_selected_edges (all_edge_index_with_self_loops (self st)) sel ts
             - set (spec_candidate_edges (all_edge_index_with_self_loops (self st)) ts)
             \<subseteq> set idx
         \<and> e = map ((!) (all_edge_index_with_self_loops (self st))) idx"
proof -
  let ?E = "all_edge_index_with_self_loops (self st)"
  from assms obtain l where run: "sample_layer_locals st ts b = (Inr l, st')"
    and l: "e = selected_edge_index l" "sel = selected_source_node_indexes l"
      "idx = selected_edges_indexes l"
    by (auto simp: sample_layer_def split: prod.splits sum.splits)
  from run obtain filtered se where
    f: "filter_selected_edges_by_source_nodes_and_target_nodes (torch_cat_error st) ?E
          (selected_source_node_indexes l) ts = Inr filtered"
    and i: "index_select ?E (unique filtered) = Inr se"
    and u: "selected_edges_indexes l = unique filtered"
    and s: "selected_edge_index l = se"
    by (elim sample_layer_locals_InrE) simp
  from f have filtered:
    "filtered = filter (\<lambda>i. fst (?E ! i) \<in> set sel \<and> snd (?E ! i) \<in> set ts) [0..<length ?E]"
    by (auto simp: filter_selected_eq l split: if_splits)
  have idx: "idx = filter (\<lambda>i. fst (?E ! i) \<in> set sel \<and> snd (?E ! i) \<in> set ts) [0..<length ?E]"
    unfolding l(3) u filtered by (rule unique_filter_upt)
  have "set idx = spec_selected_edges ?E sel ts"
    unfolding idx by (auto simp: spec_selected_edges_def)
  moreover have "sorted idx" "distinct idx"
    unfolding idx by (simp_all add: sorted_wrt_filter)
  moreover have "e = map ((!) ?E) idx"
    using index_select_InrD[OF i] l u s by simp
  ultimately show ?thesis by simp
qed

theorem selected_edges_from_full_edge_set_witness:
  "set [1, 2, 5]
     = spec_selected_edges
         (all_edge_index_with_self_loops (init [(0, 1), (1, 2), (2, 3)])) [1, 2] [2, 3]
   \<and> [(1, 2), (2, 3), (2, 2)]
     = map ((!) (all_edge_index_with_self_loops (init [(0, 1), (1, 2), (2, 3)]))) [1, 2, 5]"
proof -
  let ?st = "\<lparr>self = init [(0, 1), (1, 2), (2, 3)], np_random = id,
       torch_cat_error = RuntimeError, torch_item_error = ValueError\<rparr>"
  have "fst (sample_layer ?st [2, 3] 2)
          = Inr ([(1, 2), (2, 3), (2, 2)], [2 / 3, 1, 1 / 3], [1, 2], [1, 2, 5])"
    by code_simp
  then have run: "sample_layer ?st [2, 3] 2
             = (Inr ([(1, 2), (2, 3), (2, 2)], [2 / 3, 1, 1 / 3], [1, 2], [1, 2, 5]),
                snd (sample_layer ?st [2, 3] 2))"
    by (simp add: prod_eq_iff)
  show ?thesis
    using selected_edges_from_full_edge_set[OF run] by simp
qed

text \<open>
  Claim C6. For a sampler built by the constructor and a target-node tensor that holds at
  least one node of the graph (in particular for every non-empty set of nodes of the
  graph), the probability of each unique candidate source node is the weight of the
  candidate edges with that source divided by the weight of all candidate edges, this
  denominator is not zero, and the probabilities sum to one.
\<close>

theorem candidate_probabilities_sum_to_one:
  assumes "t \<in> set ts" and "t < node_count ei"
  shows "\<exists>cand srcs probs.
           candidate_edge_indexes err (all_edge_index_with_self_loops (init ei)) ts = Inr cand
           \<and> cand = spec_candidate_edges (all_edge_index_with_self_loops (init ei)) ts
           \<and> get_candidate_source_nodes_probabilities cand
                (all_edge_index_with_self_loops (init ei)) (all_edge_weights (init ei))
               = Inr (srcs, probs)
           \<and> srcs = unique (map (\<lambda>i. fst (all_edge_index_with_self_loops (init ei) ! i)) cand)
           \<and> probs = map (spec_probability (all_edge_index_with_self_loops (init ei))
                            (all_edge_weights (init ei)) cand) srcs
           \<and> (\<Sum>i\<leftarrow>cand. all_edge_weights (init ei) ! i) \<noteq> 0
           \<and> sum_list probs = 1"
proof -
  let ?E = "all_edge_index_with_self_loops (init ei)"
  let ?W = "all_edge_weights (init ei)"
  let ?cand = "spec_candidate_edges ?E ts"
  let ?srcs = "unique (map (\<lambda>i. fst (?E ! i)) ?cand)"
  have ts: "ts \<noteq> []" using assms(1) by auto
  have ne: "?cand \<noteq> []" using assms by (rule init_candidates_nonempty)
  have lt: "\<forall>i \<in> set ?cand. i < length ?E" by (auto simp: spec_candidate_edges_def)
  then have "\<forall>i \<in> set ?cand. 0 < ?W ! i" using init_pos[of ei] by auto
  then have tot: "0 < (\<Sum>i\<leftarrow>?cand. ?W ! i)"
    using ne by (intro sum_list_pos_real) auto
  have c1: "candidate_edge_indexes err ?E ts = Inr ?cand"
    using ts by (simp add: candidate_edge_indexes_eq spec_candidate_edges_def)
  have c2: "get_candidate_source_nodes_probabilities ?cand ?E ?W
            = Inr (?srcs, map (spec_probability ?E ?W ?cand) ?srcs)"
    using tot lt init_length[of ei]
    by (simp add: get_candidate_source_nodes_probabilities_eq Let_def)
  have c3: "sum_list (map (spec_probability ?E ?W ?cand) ?srcs) = 1"
    using tot by (intro sum_spec_probability) simp
  show ?thesis using c1 c2 c3 tot by simp
qed

theorem candidate_probabilities_sum_to_one_witness:
  "get_candidate_source_nodes_probabilities [2, 6]
       (all_edge_index_with_self_loops (init [(0, 1), (1, 2), (2, 3)]))
       (all_edge_weights (init [(0, 1), (1, 2), (2, 3)]))
     = Inr ([2, 3], [1 / 3, 2 / 3])
   \<and> sum_list [1 / 3, 2 / 3 :: real] = 1"
proof -
  let ?E = "all_edge_index_with_self_loops (init [(0, 1), (1, 2), (2, 3)])"
  let ?W = "all_edge_weights (init [(0, 1), (1, 2), (2, 3)])"
  have h1: "(3::nat) \<in> set [3]" by simp
  have h2: "3 < node_count [(0, 1), (1, 2), (2, 3)]" by code_simp
  have c: "spec_candidate_edges ?E [3] = [2, 6]" by code_simp
  have p: "get_candidate_source_nodes_probabilities [2, 6] ?E ?W = Inr ([2, 3], [1 / 3, 2 / 3])"
    by code_simp
  show ?thesis
    using candidate_probabilities_sum_to_one[OF h1 h2] unfolding c p by auto
qed

lemma sample_layer_locals_fields:
  fixes st :: state
  defines "E \<equiv> all_edge_index_with_self_loops (self st)"
    and "W \<equiv> all_edge_weights (self st)"
  assumes wf: "length W = length E" "\<forall>i < length E. 0 < W ! i"
    and run: "sample_layer_locals st ts b = (Inr l, st')"
  shows "all_candidate_edge_indexes l = spec_candidate_edges E ts"
    and "all_candidate_source_nodes_indexes l
           = unique (map (\<lambda>i. fst (E ! i)) (spec_candidate_edges E ts))"
    and "all_candidate_source_nodes_probabilities l
           = map (spec_probability E W (spec_candidate_edges E ts))
               (all_candidate_source_nodes_indexes l)"
    and "selected_edges_indexes l
           = filter (\<lambda>i. fst (E ! i) \<in> set (selected_source_node_indexes l) \<and> snd (E ! i) \<in> set ts)
               [0..<length E]"
    and "non_normalized_selected_edges_weight l
           = map (spec_raw_weight E W (spec_candidate_edges E ts) (selected_source_node_indexes l))
               (selected_edges_indexes l)"
    and "selected_edge_index l = map ((!) E) (selected_edges_indexes l)"
    and "normalize_edges_weight_by_target_nodes (selected_edge_index l)
           (non_normalized_selected_edges_weight l) = Inr (normalized_selected_edges_weight l)"
    and "\<forall>x \<in> set (non_normalized_selected_edges_weight l). 0 < x"
    and "\<forall>s \<in> set (all_candidate_source_nodes_indexes l).
           0 < spec_probability E W (spec_candidate_edges E ts) s"
    and "set (selected_source_node_indexes l) \<subseteq> set (all_candidate_source_nodes_indexes l)"
    and "distinct (selected_source_node_indexes l)"
    and "selected_source_node_indexes l \<noteq> []"
proof -
  let ?cand = "spec_candidate_edges E ts"
  let ?srcs = "unique (map (\<lambda>i. fst (E ! i)) ?cand)"
  let ?probs = "map (spec_probability E W ?cand) ?srcs"
  let ?sel = "selected_source_node_indexes l"
  let ?sidx = "filter (\<lambda>i. fst (E ! i) \<in> set ?sel \<and> snd (E ! i) \<in> set ts) [0..<length E]"
  let ?raw = "map (spec_raw_weight E W ?cand ?sel) ?sidx"
  note inv = sample_layer_locals_inversion[OF wf[unfolded E_def W_def] run, folded E_def W_def]
  from inv obtain g' where ts: "ts \<noteq> []" and ne: "?sel \<noteq> []"
    and sel: "select_source_nodes ?srcs ?probs b (np_random st) = Inr (?sel, g')"
    by blast
  note cl = sample_layer_locals_closed[of st ts ?cand ?srcs ?probs b ?sel g' ?sidx ?raw,
      folded E_def W_def, OF wf ts refl refl refl sel ne refl refl]
  from cl(1) run have l: "l = \<lparr>all_candidate_edge_indexes = ?cand,
                 all_candidate_source_nodes_indexes = ?srcs,
                 all_candidate_source_nodes_probabilities = ?probs,
                 selected_source_node_indexes = ?sel,
                 selected_edges_indexes = ?sidx,
                 non_normalized_selected_edges_weight = ?raw,
                 selected_edge_index = map ((!) E) ?sidx,
                 normalized_selected_edges_weight =
                   fold (normalize_step (map ((!) E) ?sidx)) (unique (map snd (map ((!) E) ?sidx))) ?raw\<rparr>"
    by simp
  have f1: "all_candidate_edge_indexes l = ?cand" by (subst l) simp
  have f2: "all_candidate_source_nodes_indexes l = ?srcs" by (subst l) simp
  have f3: "all_candidate_source_nodes_probabilities l = ?probs" by (subst l) simp
  have f4: "selected_edges_indexes l = ?sidx" by (subst l) simp
  have f5: "non_normalized_selected_edges_weight l = ?raw" by (subst l) simp
  have f6: "selected_edge_index l = map ((!) E) ?sidx" by (subst l) simp
  have f7: "normalized_selected_edges_weight l =
              fold (normalize_step (map ((!) E) ?sidx)) (unique (map snd (map ((!) E) ?sidx))) ?raw"
    by (subst l) simp
  show "all_candidate_edge_indexes l = ?cand" by (rule f1)
  show "all_candidate_source_nodes_indexes l = ?srcs" by (rule f2)
  show "all_candidate_source_nodes_probabilities l
           = map (spec_probability E W ?cand) (all_candidate_source_nodes_indexes l)"
    unfolding f2 by (rule f3)
  show "selected_edges_indexes l = ?sidx" by (rule f4)
  show "non_normalized_selected_edges_weight l
           = map (spec_raw_weight E W ?cand ?sel) (selected_edges_indexes l)"
    unfolding f4 by (rule f5)
  show "selected_edge_index l = map ((!) E) (selected_edges_indexes l)"
    unfolding f4 by (rule f6)
  show "normalize_edges_weight_by_target_nodes (selected_edge_index l)
           (non_normalized_selected_edges_weight l) = Inr (normalized_selected_edges_weight l)"
    unfolding f5 f6 f7 by (simp add: normalize_edges_weight_by_target_nodes_def)
  show "\<forall>x \<in> set (non_normalized_selected_edges_weight l). 0 < x"
    unfolding f5 by (rule cl(4))
  show "\<forall>s \<in> set (all_candidate_source_nodes_indexes l). 0 < spec_probability E W ?cand s"
    unfolding f2 by (rule cl(3))
  show "set ?sel \<subseteq> set (all_candidate_source_nodes_indexes l)"
    unfolding f2 by (rule cl(5))
  show "distinct ?sel" by (rule cl(6))
  show "?sel \<noteq> []" by (rule ne)
qed

text \<open>
  Claim C3. In every layer sample of a constructed sampler, the weight of each selected
  edge before normalisation is \<open>w(e) / (|selected source set| \<cdot> p(src(e)))\<close>: the divisor
  uses the number of distinct selected source nodes (the length of the selected tensor),
  not the budget, and \<open>p\<close> is the candidate-source probability that the code stores for
  the source of the edge. The divisor is positive.
\<close>

theorem raw_weight_formula:
  assumes "self st = init ei"
    and "sample_layer_locals st ts b = (Inr l, st')"
    and "k < length (selected_edges_indexes l)"
  shows "non_normalized_selected_edges_weight l ! k
           = spec_raw_weight (all_edge_index_with_self_loops (self st)) (all_edge_weights (self st))
               (all_candidate_edge_indexes l) (selected_source_node_indexes l)
               (selected_edges_indexes l ! k)
         \<and> card (set (selected_source_node_indexes l)) = length (selected_source_node_indexes l)
         \<and> all_candidate_source_nodes_probabilities l
             = map (spec_probability (all_edge_index_with_self_loops (self st))
                      (all_edge_weights (self st)) (all_candidate_edge_indexes l))
                 (all_candidate_source_nodes_indexes l)
         \<and> fst (all_edge_index_with_self_loops (self st) ! (selected_edges_indexes l ! k))
             \<in> set (all_candidate_source_nodes_indexes l)
         \<and> 0 < real (card (set (selected_source_node_indexes l)))
               * spec_probability (all_edge_index_with_self_loops (self st))
                   (all_edge_weights (self st)) (all_candidate_edge_indexes l)
                   (fst (all_edge_index_with_self_loops (self st) ! (selected_edges_indexes l ! k)))"
proof -
  let ?E = "all_edge_index_with_self_loops (self st)"
  let ?W = "all_edge_weights (self st)"
  have wf: "length ?W = length ?E" "\<forall>i < length ?E. 0 < ?W ! i"
    using assms(1) by (simp_all add: init_length init_pos)
  note f = sample_layer_locals_fields[OF wf assms(2)]
  let ?sel = "selected_source_node_indexes l"
  let ?i = "selected_edges_indexes l ! k"
  have mem: "?i \<in> set (selected_edges_indexes l)" using assms(3) by simp
  then have "fst (?E ! ?i) \<in> set ?sel" by (subst (asm) f(4)) simp
  then have src: "fst (?E ! ?i) \<in> set (all_candidate_source_nodes_indexes l)"
    using f(10) by blast
  then have p: "0 < spec_probability ?E ?W (all_candidate_edge_indexes l) (fst (?E ! ?i))"
    using f(9) by (simp add: f(1))
  have c: "card (set ?sel) = length ?sel" using f(11) by (rule distinct_card)
  have "0 < length ?sel" using f(12) by simp
  then have d: "0 < real (card (set ?sel))
                 * spec_probability ?E ?W (all_candidate_edge_indexes l) (fst (?E ! ?i))"
    using p c by simp
  have r: "non_normalized_selected_edges_weight l ! k
         = spec_raw_weight ?E ?W (all_candidate_edge_indexes l) ?sel ?i"
    using assms(3) by (subst f(5)) (simp add: f(1))
  have pr: "all_candidate_source_nodes_probabilities l
             = map (spec_probability ?E ?W (all_candidate_edge_indexes l))
                 (all_candidate_source_nodes_indexes l)"
    using f(3) by (simp add: f(1))
  show ?thesis using r c pr src d by blast
qed

theorem raw_weight_formula_witness:
  "[7 / 4 :: real] ! 0
     = spec_raw_weight (all_edge_index_with_self_loops (init [(0, 1), (1, 2), (2, 3)]))
         (all_edge_weights (init [(0, 1), (1, 2), (2, 3)])) [0, 1, 2, 4, 5, 6] [0] ([0] ! 0)
   \<and> card (set [0 :: nat]) = 1"
proof -
  let ?st = "\<lparr>self = init [(0, 1), (1, 2), (2, 3)], np_random = (\<lambda>k. 0),
       torch_cat_error = RuntimeError, torch_item_error = ValueError\<rparr>"
  let ?l = "\<lparr>all_candidate_edge_indexes = [0, 1, 2, 4, 5, 6],
             all_candidate_source_nodes_indexes = [0, 1, 2, 3],
             all_candidate_source_nodes_probabilities = [1 / 7, 2 / 7, 2 / 7, 2 / 7],
             selected_source_node_indexes = [0], selected_edges_indexes = [0],
             non_normalized_selected_edges_weight = [7 / 4],
             selected_edge_index = [(0, 1)],
             normalized_selected_edges_weight = [1]\<rparr>"
  have h1: "self ?st = init [(0, 1), (1, 2), (2, 3)]" by simp
  have "fst (sample_layer_locals ?st [1, 2, 3] 2) = Inr ?l" by code_simp
  then have h2: "sample_layer_locals ?st [1, 2, 3] 2 = (Inr ?l, snd (sample_layer_locals ?st [1, 2, 3] 2))"
    by (simp add: prod_eq_iff)
  have h3: "0 < length (selected_edges_indexes ?l)" by simp
  show ?thesis
    using raw_weight_formula[OF h1 h2 h3] by simp
qed









lemma sample_layer_normalized:
  assumes init: "self st = init ei"
    and run: "sample_layer st ts b = (Inr (e, w, sel, idx), st')"
    and t: "t \<in> snd ` set e"
  shows "sum_list (select_eq (map snd e) w t) = 1"
proof -
  let ?E = "all_edge_index_with_self_loops (self st)"
  let ?W = "all_edge_weights (self st)"
  have wf: "length ?W = length ?E" "\<forall>i < length ?E. 0 < ?W ! i"
    using init by (simp_all add: init_length init_pos)
  from run obtain l where locals: "sample_layer_locals st ts b = (Inr l, st')"
    and l: "e = selected_edge_index l" "w = normalized_selected_edges_weight l"
    by (auto simp: sample_layer_def split: prod.splits sum.splits)
  note f = sample_layer_locals_fields[OF wf locals]
  let ?raw = "non_normalized_selected_edges_weight l"
  have len: "length e = length ?raw"
    unfolding l(1) by (subst f(5), subst f(6)) simp
  have norm: "normalize_edges_weight_by_target_nodes e ?raw = Inr w"
    unfolding l by (rule f(7))
  let ?I = "filter (\<lambda>i. map snd e ! i = t) [0..<length (map snd e)]"
  have sel: "select_eq (map snd e) ?raw t = map ((!) ?raw) ?I"
    using len by (intro select_eq_nth) simp
  from t obtain i where "i < length e" "snd (e ! i) = t"
    by (auto simp: in_set_conv_nth)
  then have mem: "i \<in> set ?I" by simp
  have ne: "?I \<noteq> []"
  proof
    assume empty: "?I = []"
    show False using mem unfolding empty by simp
  qed
  have "\<forall>i \<in> set ?I. 0 < ?raw ! i"
    using f(8) len by auto
  then have "0 < sum_list (map ((!) ?raw) ?I)"
    using ne by (intro sum_list_pos_real) auto
  then have "sum_list (select_eq (map snd e) ?raw t) \<noteq> 0"
    unfolding sel by simp
  then show ?thesis
    using len t norm by (intro normalize_group_sum[where w = ?raw]) auto
qed

lemma sample_loop_invariant:
  assumes "self st = init ei"
    and "sample_loop st ts bs acc = (Inr layers, st')"
    and "\<forall>x \<in> set acc. P x"
    and step: "\<And>st ts b e w sel idx st'. self st = init ei \<Longrightarrow>
             sample_layer st ts b = (Inr (e, w, sel, idx), st') \<Longrightarrow> P [EdgeIndexT e, FloatT w]"
  shows "\<forall>x \<in> set layers. P x"
  using assms(1,2,3)
proof (induction bs arbitrary: st ts acc)
  case Nil
  then show ?case by simp
next
  case (Cons b bs)
  from Cons.prems(2) obtain e w sel idx st1 where
    r: "sample_layer st ts b = (Inr (e, w, sel, idx), st1)"
    and rest: "sample_loop st1 sel bs (acc @ [[EdgeIndexT e, FloatT w]]) = (Inr layers, st')"
    by (auto split: prod.splits sum.splits)
  have "self st1 = init ei"
    using sample_layer_self[of st ts b] r Cons.prems(1) by simp
  moreover have "\<forall>x \<in> set (acc @ [[EdgeIndexT e, FloatT w]]). P x"
    using Cons.prems(3) step[OF Cons.prems(1) r] by simp
  ultimately show ?case using Cons.IH rest by blast
qed

text \<open>
  Claim C7. In every layer returned by \<open>sample\<close> on a constructed sampler, for every
  node that is the target of at least one edge of the layer, the normalised weights of
  the layer's edges with that target sum to one.
\<close>

theorem normalized_weights_sum_to_one:
  assumes "self st = init ei"
    and "sample st targets bs = (Inr layers, st')"
    and "[EdgeIndexT e, FloatT w] \<in> set layers"
    and "t \<in> snd ` set e"
  shows "sum_list (select_eq (map snd e) w t) = 1"
proof -
  let ?P = "\<lambda>x. \<forall>e w. x = [EdgeIndexT e, FloatT w] \<longrightarrow>
                (\<forall>t \<in> snd ` set e. sum_list (select_eq (map snd e) w t) = 1)"
  from assms(2) obtain ls where
    loop: "sample_loop st targets (rev bs) [] = (Inr ls, st')" and layers: "layers = rev ls"
    by (auto simp: sample_def split: if_splits prod.splits sum.splits)
  have "\<forall>x \<in> set ls. ?P x"
  proof (rule sample_loop_invariant[OF assms(1) loop])
    show "\<forall>x \<in> set []. ?P x" by simp
  next
    fix st ts b e w sel idx st'
    assume "self st = init ei" "sample_layer st ts b = (Inr (e, w, sel, idx), st')"
    then show "?P [EdgeIndexT e, FloatT w]"
      using sample_layer_normalized by blast
  qed
  then show ?thesis using assms(3,4) layers by auto
qed

theorem normalized_weights_sum_to_one_witness:
  "sum_list (select_eq (map snd [(1 :: nat, 2 :: nat), (2, 3), (2, 2)]) [2 / 3, 1, 1 / 3 :: real] 2) = 1"
proof -
  let ?st = "\<lparr>self = init [(0, 1), (1, 2), (2, 3)], np_random = id,
       torch_cat_error = RuntimeError, torch_item_error = ValueError\<rparr>"
  let ?layers = "[[EdgeIndexT [(1, 2), (2, 3), (2, 2)], FloatT [2 / 3, 1, 1 / 3]],
                  [EdgeIndexT [(2, 3), (3, 3)], FloatT [1 / 2, 1 / 2]]]"
  have h1: "self ?st = init [(0, 1), (1, 2), (2, 3)]" by simp
  have "fst (sample ?st [3] [2, 2]) = Inr ?layers" by code_simp
  then have h2: "sample ?st [3] [2, 2] = (Inr ?layers, snd (sample ?st [3] [2, 2]))"
    by (simp add: prod_eq_iff)
  have h3: "[EdgeIndexT [(1, 2), (2, 3), (2, 2)], FloatT [2 / 3, 1, 1 / 3]] \<in> set ?layers"
    by simp
  have h4: "(2::nat) \<in> snd ` set [(1, 2), (2, 3), (2, 2)]" by simp
  show ?thesis
    by (rule normalized_weights_sum_to_one[OF h1 h2 h3 h4])
qed

lemma sample_total:
  assumes "self st = init ei" "targets \<noteq> []" "\<forall>t \<in> set targets. t < node_count ei"
    "bs \<noteq> []" "\<forall>b \<in> set bs. 0 < b"
  shows "\<exists>layers st'. sample st targets bs = (Inr layers, st') \<and> self st' = init ei
           \<and> length layers = length bs
           \<and> (\<forall>l \<in> set layers. \<exists>e w. l = [EdgeIndexT e, FloatT w])"
  using assms(4,1,2,3,5)
proof (induction bs arbitrary: st targets rule: rev_nonempty_induct)
  case (single b)
  from sample_layer_step[OF single(1,2,3), of b] single(4)
  obtain e w sel idx st1 where
    r: "sample_layer st targets b = (Inr (e, w, sel, idx), st1)" "self st1 = init ei"
    by auto
  have "sample st targets ([] @ [b]) = (Inr [[EdgeIndexT e, FloatT w]], st1)"
    by (subst sample_snoc) (simp add: r)
  then show ?case using r(2) by simp
next
  case (snoc b bs)
  from sample_layer_step[OF snoc(3,4,5), of b] snoc(6)
  obtain e w sel idx st1 where
    r: "sample_layer st targets b = (Inr (e, w, sel, idx), st1)" "self st1 = init ei"
      "sel \<noteq> []" "\<forall>t \<in> set sel. t < node_count ei"
    by auto
  from snoc(2)[OF r(2,3,4)] snoc(6)
  obtain ls st2 where
    ih: "sample st1 sel bs = (Inr ls, st2)" "self st2 = init ei" "length ls = length bs"
      "\<forall>l \<in> set ls. \<exists>e w. l = [EdgeIndexT e, FloatT w]"
    by auto
  have "sample st targets (bs @ [b]) = (Inr (ls @ [[EdgeIndexT e, FloatT w]]), st2)"
    using snoc(1) by (subst sample_snoc) (simp add: r ih)
  then show ?case using ih by auto
qed

text \<open>
  Claim C1, as the code has it. For a constructed sampler, a non-empty tensor of target
  nodes of the graph and a non-empty sequence of \<open>n\<close> positive budgets, \<open>sample\<close> returns
  exactly \<open>n\<close> layer results. Each is the pair \<open>(edge_index, edge_weight)\<close> of the
  corresponding layer sample: the selected source nodes and the selected edge indexes are
  not part of it. The results are ordered input to output: the last one is the layer
  sampled from the given target nodes with the last budget, and the results before it are
  those of \<open>sample\<close> run on that layer's selected source nodes with the remaining budgets.
\<close>

theorem sample_returns_layer_pairs:
  assumes "self st = init ei"
    and "targets \<noteq> []" and "\<forall>t \<in> set targets. t < node_count ei"
    and "bs \<noteq> []" and "\<forall>b \<in> set bs. 0 < b"
  shows "\<exists>layers st' e w sel idx st1.
           sample st targets bs = (Inr layers, st')
           \<and> length layers = length bs
           \<and> (\<forall>l \<in> set layers. \<exists>e w. l = [EdgeIndexT e, FloatT w])
           \<and> sample_layer st targets (last bs) = (Inr (e, w, sel, idx), st1)
           \<and> last layers = [EdgeIndexT e, FloatT w]
           \<and> (butlast bs \<noteq> [] \<longrightarrow> sample st1 sel (butlast bs) = (Inr (butlast layers), st'))"
proof -
  from sample_total[OF assms] obtain layers st' where
    s: "sample st targets bs = (Inr layers, st')" "length layers = length bs"
      "\<forall>l \<in> set layers. \<exists>e w. l = [EdgeIndexT e, FloatT w]"
    by blast
  have b: "0 < last bs" using assms(4,5) by simp
  from sample_layer_step[OF assms(1,2,3) b]
  obtain e w sel idx st1 where
    r: "sample_layer st targets (last bs) = (Inr (e, w, sel, idx), st1)"
    by blast
  have split: "bs = butlast bs @ [last bs]" using assms(4) by simp
  have eq: "sample st targets (butlast bs @ [last bs]) = (Inr layers, st')"
    using s(1) split by simp
  have "last layers = [EdgeIndexT e, FloatT w]
        \<and> (butlast bs \<noteq> [] \<longrightarrow> sample st1 sel (butlast bs) = (Inr (butlast layers), st'))"
    using eq unfolding sample_snoc r
    by (auto split: if_splits prod.splits sum.splits)
  then show ?thesis using s r by blast
qed

theorem sample_returns_layer_pairs_witness:
  "fst (sample \<lparr>self = init [(0, 1), (1, 2), (2, 3)], np_random = id,
       torch_cat_error = RuntimeError, torch_item_error = ValueError\<rparr> [3] [2, 2])
     = Inr [[EdgeIndexT [(1, 2), (2, 3), (2, 2)], FloatT [2 / 3, 1, 1 / 3]],
            [EdgeIndexT [(2, 3), (3, 3)], FloatT [1 / 2, 1 / 2]]]
   \<and> (\<exists>layers st'. sample \<lparr>self = init [(0, 1), (1, 2), (2, 3)], np_random = id,
       torch_cat_error = RuntimeError, torch_item_error = ValueError\<rparr> [3] [2, 2]
          = (Inr layers, st') \<and> length layers = length [2, 2 :: int])"
proof -
  let ?st = "\<lparr>self = init [(0, 1), (1, 2), (2, 3)], np_random = id,
       torch_cat_error = RuntimeError, torch_item_error = ValueError\<rparr>"
  have h1: "self ?st = init [(0, 1), (1, 2), (2, 3)]" by simp
  have h2: "[3 :: nat] \<noteq> []" by simp
  have h3: "\<forall>t \<in> set [3]. t < node_count [(0, 1), (1, 2), (2, 3)]" by code_simp
  have h4: "[2, 2 :: int] \<noteq> []" by simp
  have h5: "\<forall>b \<in> set [2, 2 :: int]. 0 < b" by simp
  have v: "fst (sample ?st [3] [2, 2])
     = Inr [[EdgeIndexT [(1, 2), (2, 3), (2, 2)], FloatT [2 / 3, 1, 1 / 3]],
            [EdgeIndexT [(2, 3), (3, 3)], FloatT [1 / 2, 1 / 2]]]"
    by code_simp
  show ?thesis
    using sample_returns_layer_pairs[OF h1 h2 h3 h4 h5] v by blast
qed

theorem sample_layers_four_tuple_counterexample:
  "fst (sample_layer \<lparr>self = init [(0, 1), (1, 2), (2, 3)], np_random = id,
       torch_cat_error = RuntimeError, torch_item_error = ValueError\<rparr> [3] 2)
     = Inr ([(2, 3), (3, 3)], [1 / 2, 1 / 2], [2, 3], [2, 6])
   \<and> fst (sample \<lparr>self = init [(0, 1), (1, 2), (2, 3)], np_random = id,
       torch_cat_error = RuntimeError, torch_item_error = ValueError\<rparr> [3] [2])
       = Inr [[EdgeIndexT [(2, 3), (3, 3)], FloatT [1 / 2, 1 / 2]]]
   \<and> fst (sample \<lparr>self = init [(0, 1), (1, 2), (2, 3)], np_random = id,
       torch_cat_error = RuntimeError, torch_item_error = ValueError\<rparr> [3] [2])
       \<noteq> Inr [[EdgeIndexT [(2, 3), (3, 3)], FloatT [1 / 2, 1 / 2], LongT [2, 3], LongT [2, 6]]]
   \<and> fst (sample \<lparr>self = init [(0, 1), (1, 2), (2, 3)], np_random = id,
       torch_cat_error = RuntimeError, torch_item_error = ValueError\<rparr> [] [2])
       = Inl RuntimeError
   \<and> fst (sample \<lparr>self = init [(0, 1), (1, 2), (2, 3)], np_random = id,
       torch_cat_error = RuntimeError, torch_item_error = ValueError\<rparr> [3] [0])
       = Inl RuntimeError"
  by code_simp

section \<open>The claim about the random masks\<close>

lemma py_int_nonneg: "0 \<le> x \<Longrightarrow> 0 \<le> py_int x"
  by (simp add: py_int_def)

lemma py_int_mono: "0 \<le> x \<Longrightarrow> x \<le> y \<Longrightarrow> py_int x \<le> py_int y"
  by (simp add: py_int_def floor_mono)

lemma index_to_mask_Inr:
  assumes "\<forall>i \<in> set ix. i < n"
  shows "index_to_mask ix n = Inr (set_true (replicate n False) ix)"
  using assms by (auto simp: index_to_mask_def)

lemma set_true_replicate:
  "length (set_true (replicate n False) ix) = n"
  "i < n \<Longrightarrow> set_true (replicate n False) ix ! i = (i \<in> set ix)"
  by (simp_all add: length_set_true nth_set_true)

lemma split_masks_at_partition:
  assumes d: "distinct perm" and s: "set perm = {..<n}" and ab: "0 \<le> a" "a \<le> b"
  shows "\<exists>train val test. split_masks_at perm a b n = Inr (train, val, test)
           \<and> spec_partition n train val test"
proof -
  have len: "length perm = n"
    using distinct_card[OF d] s by simp
  define A where "A = min (nat a) n"
  define B where "B = min (nat b) n"
  have AB: "A \<le> B" "B \<le> n" using ab by (auto simp: A_def B_def)
  have sa: "slice_bound n a = A" using ab by (simp add: slice_bound_def A_def)
  have sb: "slice_bound n b = B" using ab by (simp add: slice_bound_def B_def)
  define tr where "tr = take A perm"
  define va where "va = take (B - A) (drop A perm)"
  define te where "te = drop B perm"
  have t1: "py_slice perm None (Some a) = tr" by (simp add: py_slice_def len sa tr_def)
  have t2: "py_slice perm (Some a) (Some b) = va" by (simp add: py_slice_def len sa sb va_def)
  have t3: "py_slice perm (Some b) None = te"
    using AB by (simp add: py_slice_def len sb te_def)
  have "drop A perm = take (B - A) (drop A perm) @ drop (B - A) (drop A perm)"
    by (rule append_take_drop_id[symmetric])
  also have "drop (B - A) (drop A perm) = drop B perm" using AB by simp
  finally have "drop A perm = va @ te" unfolding va_def te_def .
  moreover have "perm = take A perm @ drop A perm"
    by (rule append_take_drop_id[symmetric])
  ultimately have perm: "perm = tr @ va @ te" unfolding tr_def by simp
  have sub: "\<forall>i \<in> set tr. i < n" "\<forall>i \<in> set va. i < n" "\<forall>i \<in> set te. i < n"
    using s perm by auto
  let ?m = "\<lambda>ix. set_true (replicate n False) ix"
  have res: "split_masks_at perm a b n = Inr (?m tr, ?m va, ?m te)"
    unfolding split_masks_at_def Let_def t1 t2 t3
    by (simp add: index_to_mask_Inr sub)
  have dis: "set tr \<inter> set va = {}" "set tr \<inter> set te = {}" "set va \<inter> set te = {}"
    using d unfolding perm by auto
  have cov: "set tr \<union> set va \<union> set te = {..<n}"
    using s unfolding perm by auto
  have "spec_partition n (?m tr) (?m va) (?m te)"
    unfolding spec_partition_def list_all_iff
    using dis cov by (auto simp: set_true_replicate)
  then show ?thesis using res by blast
qed

lemma map_of_dict_set:
  "map_of (dict_set d k v) k' = (if k' = k then Some v else map_of d k')"
  by (induction d) auto

lemma dict_set_Nil: "dict_set d k v \<noteq> []"
  by (cases d) (auto split: if_splits)

lemma collect_all_Inr:
  assumes "\<forall>x \<in> set xs. \<exists>y. f x = Inr y"
  shows "\<exists>ys. collect (map f xs) = Inr ys \<and> length ys = length xs
           \<and> (\<forall>k < length xs. f (xs ! k) = Inr (ys ! k))"
  using assms
proof (induction xs)
  case Nil
  then show ?case by simp
next
  case (Cons x xs)
  then obtain y ys where y: "f x = Inr y" and ys: "collect (map f xs) = Inr ys"
    "length ys = length xs" "\<forall>k < length xs. f (xs ! k) = Inr (ys ! k)"
    by auto
  have "collect (map f (x # xs)) = Inr (y # ys)" by (simp add: y ys)
  moreover have "\<forall>k < length (x # xs). f ((x # xs) ! k) = Inr ((y # ys) ! k)"
    using y ys(3) by (auto simp: nth_Cons split: nat.splits)
  ultimately show ?case using ys(2) by auto
qed

lemma split_graph_masks:
  assumes perm: "\<forall>n. distinct (randperm n) \<and> set (randperm n) = {..<n}"
    and r: "0 \<le> train_ratio" "0 \<le> val_ratio"
  shows "\<exists>g'. split_graph randperm train_ratio val_ratio g = Inr g'
           \<and> (case g of
                 [] \<Rightarrow> g' = []
               | (key, x) # _ \<Rightarrow>
                   (\<exists>train val test.
                      map_of g' ''train_mask'' = Some (Mask train)
                      \<and> map_of g' ''val_mask'' = Some (Mask val)
                      \<and> map_of g' ''test_mask'' = Some (Mask test)
                      \<and> spec_partition (size0 x) train val test))"
proof (cases g)
  case Nil
  then show ?thesis by (simp add: split_graph_def)
next
  case (Cons p rest)
  obtain key x where p: "p = (key, x)" by (cases p) auto
  let ?n = "size0 x"
  have a: "0 \<le> py_int (real ?n * train_ratio)"
    using r by (intro py_int_nonneg) simp
  have b: "py_int (real ?n * train_ratio) \<le> py_int (real ?n * (train_ratio + val_ratio))"
    using r by (intro py_int_mono mult_left_mono) simp_all
  from split_masks_at_partition[OF _ _ a b, of "randperm ?n" ?n] perm
  obtain train val test where
    m: "random_split_masks randperm train_ratio val_ratio ?n = Inr (train, val, test)"
    and sp: "spec_partition ?n train val test"
    unfolding random_split_masks_def by blast
  let ?g' = "dict_set (dict_set (dict_set g ''train_mask'' (Mask train))
                      ''val_mask'' (Mask val)) ''test_mask'' (Mask test)"
  have "split_graph randperm train_ratio val_ratio g = Inr ?g'"
    by (simp add: split_graph_def Cons p m)
  moreover have "map_of ?g' ''train_mask'' = Some (Mask train)"
    "map_of ?g' ''val_mask'' = Some (Mask val)" "map_of ?g' ''test_mask'' = Some (Mask test)"
    by (simp_all add: map_of_dict_set)
  ultimately show ?thesis using sp by (simp add: Cons p)
qed

text \<open>
  Claim C10, as the code has it. Let \<open>randperm\<close> return a permutation of the node indexes.
  Whenever the two cut points satisfy \<open>0 \<le> a \<le> b\<close>, the three masks put every node in
  exactly one split. This is the case for ratios that are both non-negative; with
  \<open>train_ratio + val_ratio \<le> 1\<close> the call then succeeds, and for every graph of the dataset
  that has node data the stored train, validation and test masks are pairwise disjoint
  and cover all its nodes. The bound on the sum alone does not give this.
\<close>

theorem random_masks_partition:
  assumes "\<forall>n. distinct (randperm n) \<and> set (randperm n) = {..<n}"
    and "0 \<le> train_ratio" and "0 \<le> val_ratio" and "train_ratio + val_ratio \<le> 1"
  shows "(0 \<le> a \<and> a \<le> b \<longrightarrow>
            (\<exists>train val test. split_masks_at (randperm n) a b n = Inr (train, val, test)
                \<and> spec_partition n train val test))
         \<and> (\<exists>train val test.
               random_split_masks randperm train_ratio val_ratio n = Inr (train, val, test)
               \<and> spec_partition n train val test)
         \<and> (\<exists>result.
               random_splits_mask randperm dataset train_ratio val_ratio = Inr result
               \<and> length result = length dataset
               \<and> (\<forall>k < length dataset.
                     case dataset ! k of
                       [] \<Rightarrow> result ! k = []
                     | (key, x) # _ \<Rightarrow>
                         (\<exists>train val test.
                            map_of (result ! k) ''train_mask'' = Some (Mask train)
                            \<and> map_of (result ! k) ''val_mask'' = Some (Mask val)
                            \<and> map_of (result ! k) ''test_mask'' = Some (Mask test)
                            \<and> spec_partition (size0 x) train val test)))"
proof -
  have p: "distinct (randperm n)" "set (randperm n) = {..<n}" using assms(1) by auto
  have c1: "0 \<le> a \<and> a \<le> b \<longrightarrow>
            (\<exists>train val test. split_masks_at (randperm n) a b n = Inr (train, val, test)
                \<and> spec_partition n train val test)"
    using split_masks_at_partition[OF p] by blast
  have a: "0 \<le> py_int (real n * train_ratio)"
    using assms(2) by (intro py_int_nonneg) simp
  have b: "py_int (real n * train_ratio) \<le> py_int (real n * (train_ratio + val_ratio))"
    using assms(2,3) by (intro py_int_mono mult_left_mono) simp_all
  have c2: "\<exists>train val test.
               random_split_masks randperm train_ratio val_ratio n = Inr (train, val, test)
               \<and> spec_partition n train val test"
    unfolding random_split_masks_def by (rule split_masks_at_partition[OF p a b])
  let ?f = "split_graph randperm train_ratio val_ratio"
  have "\<forall>g \<in> set dataset. \<exists>g'. ?f g = Inr g'"
    using split_graph_masks[OF assms(1,2,3)] by blast
  from collect_all_Inr[OF this] obtain result where
    res: "collect (map ?f dataset) = Inr result" "length result = length dataset"
      "\<forall>k < length dataset. ?f (dataset ! k) = Inr (result ! k)"
    by blast
  have "case dataset ! k of
          [] \<Rightarrow> result ! k = []
        | (key, x) # _ \<Rightarrow>
            (\<exists>train val test.
               map_of (result ! k) ''train_mask'' = Some (Mask train)
               \<and> map_of (result ! k) ''val_mask'' = Some (Mask val)
               \<and> map_of (result ! k) ''test_mask'' = Some (Mask test)
               \<and> spec_partition (size0 x) train val test)" if "k < length dataset" for k
    using split_graph_masks[OF assms(1,2,3), of "dataset ! k"] res(3) that by auto
  then have c3: "\<exists>result.
               random_splits_mask randperm dataset train_ratio val_ratio = Inr result
               \<and> length result = length dataset
               \<and> (\<forall>k < length dataset.
                     case dataset ! k of
                       [] \<Rightarrow> result ! k = []
                     | (key, x) # _ \<Rightarrow>
                         (\<exists>train val test.
                            map_of (result ! k) ''train_mask'' = Some (Mask train)
                            \<and> map_of (result ! k) ''val_mask'' = Some (Mask val)
                            \<and> map_of (result ! k) ''test_mask'' = Some (Mask test)
                            \<and> spec_partition (size0 x) train val test))"
    using res(1,2) assms(4) by (auto simp: random_splits_mask_def)
  show ?thesis using c1 c2 c3 by blast
qed

theorem random_masks_partition_witness:
  "random_split_masks (\<lambda>n. rev [0..<n]) (1 / 5) (2 / 5) 5
     = Inr ([False, False, False, False, True], [False, False, True, True, False],
            [True, True, False, False, False])
   \<and> (\<exists>train val test.
         random_split_masks (\<lambda>n. rev [0..<n]) (1 / 5) (2 / 5) 5 = Inr (train, val, test)
         \<and> spec_partition 5 train val test)"
proof -
  have h1: "\<forall>n. distinct (rev [0..<n]) \<and> set (rev [0..<n]) = {..<n}" by auto
  have h2: "(0::real) \<le> 1 / 5" and h3: "(0::real) \<le> 2 / 5" and h4: "(1::real) / 5 + 2 / 5 \<le> 1"
    by simp_all
  have v: "random_split_masks (\<lambda>n. rev [0..<n]) (1 / 5) (2 / 5) 5
     = Inr ([False, False, False, False, True], [False, False, True, True, False],
            [True, True, False, False, False])"
    by code_simp
  show ?thesis
    using random_masks_partition[OF h1 h2 h3 h4, of 0 0 5 "[]"] v by blast
qed

theorem random_masks_overlap_counterexample:
  "(1 / 2 :: real) + (- 1 / 4) \<le> 1
   \<and> random_splits_mask (upt 0) [[(''x'', Feature 4)]] (1 / 2) (- 1 / 4)
       = Inr [[(''x'', Feature 4),
               (''train_mask'', Mask [True, True, False, False]),
               (''val_mask'', Mask [False, False, False, False]),
               (''test_mask'', Mask [False, True, True, True])]]
   \<and> \<not> spec_partition 4 [True, True, False, False] [False, False, False, False]
          [False, True, True, True]"
  by code_simp

end
